theory Spec2Isabelle
  imports Main "HOL-Library.AList"
begin

section \<open>Data model of the backtest execution client\<close>

text \<open>
  The embedding follows \<^verbatim>\<open>BacktestExecClient\<close> (backtest execution client, Cython).
  Identifiers are strings.  Dictionaries that the code iterates are association lists in
  insertion order (\<open>AList.update\<close> keeps the position of an existing key and appends a
  new one, \<open>AList.delete\<close> removes a key), dictionaries that are only looked up are maps.
\<close>

type_synonym symbol = string
type_synonym order_id = string
type_synonym currency = string
type_synonym datetime = int

text \<open>
  Modelled from the spec: the classes \<^verbatim>\<open>Price\<close>, \<^verbatim>\<open>Decimal\<close>, \<^verbatim>\<open>Quantity\<close> and \<^verbatim>\<open>Money\<close>
  are declared outside the sources at hand.  The spec describes prices as fixed-point
  numbers whose \<^verbatim>\<open>add\<close>, \<^verbatim>\<open>subtract\<close>, \<^verbatim>\<open>lt\<close>, \<^verbatim>\<open>gt\<close>, \<^verbatim>\<open>le\<close>, \<^verbatim>\<open>ge\<close>, \<^verbatim>\<open>eq\<close> preserve the
  precision, and money as a fixed-point amount in the single account currency.  Both are
  integers here: a price counts units of the smallest price increment, a money amount
  counts units of the smallest currency unit.
\<close>

type_synonym price = int
type_synonym quantity = int
type_synonym money = int

datatype order_side = BUY | SELL
datatype order_type = MARKET | LIMIT | STOP | STOP_LIMIT | MIT
datatype order_state =
  INITIALIZED | SUBMITTED | ACCEPTED | WORKING | FILLED | CANCELLED | REJECTED | EXPIRED
datatype market_position = FLAT | LONG | SHORT
datatype security_type = FOREX | OTHER_SECURITY
datatype price_type = BID | ASK | MID

datatype error =
  KeyError | ValueError | TypeError | AttributeError | IndexError | RecursionError

record tick =
  tick_symbol :: symbol
  tick_bid :: price
  tick_ask :: price
  tick_timestamp :: datetime

text \<open>
  The immutable part of an \<^verbatim>\<open>Order\<close>.  Its \<^verbatim>\<open>state\<close> and \<^verbatim>\<open>is_completed\<close> attributes are
  written by the execution engine when it handles an event, so they are read through the
  collaborators below.  The price of a MARKET order is absent in the code and never read
  for it.
\<close>

record order =
  o_id :: order_id
  o_symbol :: symbol
  o_side :: order_side
  o_type :: order_type
  o_quantity :: quantity
  o_price :: price
  o_expire_time :: "datetime option"

record instrument =
  i_symbol :: symbol
  i_quote_currency :: currency
  i_security_type :: security_type
  i_tick_size :: price
  i_min_trade_size :: quantity
  i_max_trade_size :: quantity
  i_min_stop_distance :: int
  i_min_limit_distance :: int

record 'd position =
  p_symbol :: symbol
  p_market_position :: market_position
  p_quantity :: quantity
  p_average_open_price :: 'd
  p_entry_direction :: order_side

record order_fill_event =
  ev_order_id :: order_id
  ev_symbol :: symbol
  ev_order_side :: order_side
  ev_filled_quantity :: quantity
  ev_average_price :: price

text \<open>The reason strings of the rejections, with the values the f-strings print.\<close>

datatype reject_reason =
    QuantityExceedsMax quantity quantity
  | QuantityBelowMin quantity quantity
  | NoMarket symbol
  | BuyStopTooFar price price
  | BuyLimitTooFar price price
  | SellStopTooFar price price
  | SellLimitTooFar price price
  | OcoRejectedFrom order_id

datatype cancel_reject_reason = OrderNotFound | ModifiedQuantityInvalid quantity

text \<open>
  The events handed to \<^verbatim>\<open>ExecutionEngine.handle_event\<close>.  Each keeps the order it is about
  and the values the client computes; account id, generated event id, timestamps, labels
  and broker ids are left out.  An account state event carries cash balance, cash at the
  start of the day and cash activity of the day.
\<close>

datatype event =
    AccountStateEvent money money money
  | OrderSubmitted order_id
  | OrderAccepted order_id
  | OrderRejected order_id reject_reason
  | OrderWorking order
  | OrderModified order_id quantity price
  | OrderCancelled order_id
  | OrderCancelReject order_id string cancel_reject_reason
  | OrderExpired order_id
  | OrderFilled order_fill_event

text \<open>
  The two kinds of object that the code passes as first argument of
  \<^verbatim>\<open>_cancel_reject_order\<close>.
\<close>

datatype pyobject = PyOrderId order_id | PyOrder order

subsection \<open>Collaborators\<close>

text \<open>
  Everything the client calls but does not define is a parameter: the execution engine
  with its database and account (state \<open>'e\<close>), the fill model (state \<open>'f\<close>), the
  calculators, the calendar functions of \<^verbatim>\<open>datetime\<close>, and the arithmetic of C doubles
  (type \<open>'d\<close>), of which nothing is assumed.
\<close>

record ('e, 'f, 'd) collab =
  handle_event :: "event \<Rightarrow> 'e \<Rightarrow> 'e"
  get_order :: "'e \<Rightarrow> order_id \<Rightarrow> order option"
  get_position_for_order :: "'e \<Rightarrow> order_id \<Rightarrow> 'd position option"
  get_positions_open :: "'e \<Rightarrow> 'd position list"
  order_state_of :: "'e \<Rightarrow> order \<Rightarrow> order_state"
  order_is_completed :: "'e \<Rightarrow> order \<Rightarrow> bool"
  account_cash_balance :: "'e \<Rightarrow> money"
  is_slipped :: "'f \<Rightarrow> bool \<times> 'f"
  is_stop_filled :: "'f \<Rightarrow> bool \<times> 'f"
  is_limit_filled :: "'f \<Rightarrow> bool \<times> 'f"
  get_rate :: "currency \<Rightarrow> currency \<Rightarrow> price_type \<Rightarrow> (symbol \<times> 'd) list
    \<Rightarrow> (symbol \<times> 'd) list \<Rightarrow> 'd"
  commission_calculate :: "symbol \<Rightarrow> quantity \<Rightarrow> price \<Rightarrow> 'd \<Rightarrow> currency \<Rightarrow> money"
  calc_overnight_rate :: "symbol \<Rightarrow> datetime \<Rightarrow> 'd"
  day_of :: "datetime \<Rightarrow> int"
  rollover_time_of :: "datetime \<Rightarrow> datetime"
  isoweekday :: "datetime \<Rightarrow> int"
  fadd :: "'d \<Rightarrow> 'd \<Rightarrow> 'd"
  fsub :: "'d \<Rightarrow> 'd \<Rightarrow> 'd"
  fmul :: "'d \<Rightarrow> 'd \<Rightarrow> 'd"
  fdiv :: "'d \<Rightarrow> 'd \<Rightarrow> 'd"
  feq :: "'d \<Rightarrow> 'd \<Rightarrow> bool"
  f_zero :: 'd
  f_two :: 'd
  f_three :: 'd
  price_as_double :: "price \<Rightarrow> 'd"
  quantity_as_double :: "quantity \<Rightarrow> 'd"
  Money :: "'d \<Rightarrow> money"

subsection \<open>State of the client\<close>

text \<open>
  The fields of the class, plus three history variables that no operation reads:
  \<open>events\<close> (every event given to \<^verbatim>\<open>handle_event\<close>, in order), \<open>closing_fills\<close> (the pnl
  and the commission computed by each call of \<^verbatim>\<open>adjust_account\<close>) and \<open>applied_rollovers\<close>
  (the amount booked by each call of \<^verbatim>\<open>apply_rollover_interest\<close>).
\<close>

record ('e, 'f, 'd) client =
  clock :: datetime
  exec_engine :: 'e
  exec_db_registered :: bool
  instruments :: "symbol \<rightharpoonup> instrument"
  day_number :: int
  rollover_time :: "datetime option"
  rollover_applied :: bool
  frozen_account :: bool
  starting_capital :: money
  account_currency :: currency
  account_capital :: money
  account_cash_start_day :: money
  account_cash_activity_day :: money
  rollover_spread :: 'd
  total_commissions :: money
  total_rollover :: money
  fill_model :: 'f
  market :: "(symbol \<times> tick) list"
  slippages :: "symbol \<rightharpoonup> price"
  min_stops :: "symbol \<rightharpoonup> price"
  min_limits :: "symbol \<rightharpoonup> price"
  working_orders :: "(order_id \<times> order) list"
  atomic_child_orders :: "(order_id \<times> order list) list"
  oco_orders :: "order_id \<rightharpoonup> order_id"
  events :: "event list"
  closing_fills :: "(money \<times> money) list"
  applied_rollovers :: "money list"

record backtest_config =
  cfg_frozen_account :: bool
  cfg_starting_capital :: money
  cfg_account_currency :: currency

definition STOP_ORDER_TYPES :: "order_type set" where
  "STOP_ORDER_TYPES = {STOP, STOP_LIMIT, MIT}"

definition bindE :: "error + 'a \<Rightarrow> ('a \<Rightarrow> error + 'b) \<Rightarrow> error + 'b" where
  "bindE m f = (case m of Inl e \<Rightarrow> Inl e | Inr x \<Rightarrow> f x)"

text \<open>\<^verbatim>\<open>__init__\<close>, with \<^verbatim>\<open>_set_slippages\<close> and \<^verbatim>\<open>_set_min_distances\<close>.\<close>

definition init ::
  "('e, 'f, 'd) collab \<Rightarrow> backtest_config \<Rightarrow> 'e \<Rightarrow> bool \<Rightarrow> 'f \<Rightarrow> (symbol \<rightharpoonup> instrument)
    \<Rightarrow> ('e, 'f, 'd) client" where
  "init C config engine db fm instrs =
    \<lparr>clock = 0,
     exec_engine = engine,
     exec_db_registered = db,
     instruments = instrs,
     day_number = 0,
     rollover_time = None,
     rollover_applied = False,
     frozen_account = cfg_frozen_account config,
     starting_capital = cfg_starting_capital config,
     account_currency = cfg_account_currency config,
     account_capital = cfg_starting_capital config,
     account_cash_start_day = cfg_starting_capital config,
     account_cash_activity_day = 0,
     rollover_spread = f_zero C,
     total_commissions = 0,
     total_rollover = 0,
     fill_model = fm,
     market = [],
     slippages = (\<lambda>sym. map_option i_tick_size (instrs sym)),
     min_stops = (\<lambda>sym. map_option (\<lambda>i. i_tick_size i * i_min_stop_distance i) (instrs sym)),
     min_limits = (\<lambda>sym. map_option (\<lambda>i. i_tick_size i * i_min_limit_distance i) (instrs sym)),
     working_orders = [],
     atomic_child_orders = [],
     oco_orders = Map.empty,
     events = [],
     closing_fills = [],
     applied_rollovers = []\<rparr>"

text \<open>\<^verbatim>\<open>self._exec_engine.handle_event(event)\<close>.\<close>

definition exec_engine_handle_event ::
  "('e, 'f, 'd) collab \<Rightarrow> event \<Rightarrow> ('e, 'f, 'd) client \<Rightarrow> ('e, 'f, 'd) client" where
  "exec_engine_handle_event C ev s =
    s\<lparr>exec_engine := handle_event C ev (exec_engine s), events := events s @ [ev]\<rparr>"

definition build_current_bid_rates ::
  "('e, 'f, 'd) collab \<Rightarrow> ('e, 'f, 'd) client \<Rightarrow> (symbol \<times> 'd) list" where
  "build_current_bid_rates C s =
    map (\<lambda>(sym, t). (sym, price_as_double C (tick_bid t))) (market s)"

definition build_current_ask_rates ::
  "('e, 'f, 'd) collab \<Rightarrow> ('e, 'f, 'd) client \<Rightarrow> (symbol \<times> 'd) list" where
  "build_current_ask_rates C s =
    map (\<lambda>(sym, t). (sym, price_as_double C (tick_ask t))) (market s)"


section \<open>Event handling\<close>

text \<open>
  Modelled from the spec: \<^verbatim>\<open>Order.equals\<close> is declared outside the sources at hand; the
  spec speaks of a pending child "equal to the partner", and orders are told apart by their
  identifier.
\<close>

definition order_equals :: "order \<Rightarrow> order \<Rightarrow> bool" where
  "order_equals a b = (o_id a = o_id b)"

definition reject_oco_order ::
  "('e, 'f, 'd) collab \<Rightarrow> order \<Rightarrow> order_id \<Rightarrow> ('e, 'f, 'd) client \<Rightarrow> ('e, 'f, 'd) client" where
  "reject_oco_order C order oco_order_id s =
    exec_engine_handle_event C (OrderRejected (o_id order) (OcoRejectedFrom oco_order_id)) s"

definition cancel_oco_order ::
  "('e, 'f, 'd) collab \<Rightarrow> order \<Rightarrow> order_id \<Rightarrow> ('e, 'f, 'd) client \<Rightarrow> ('e, 'f, 'd) client" where
  "cancel_oco_order C order oco_order_id s =
    exec_engine_handle_event C (OrderCancelled (o_id order)) s"

text \<open>
  The two nested loops of \<^verbatim>\<open>_check_oco_order\<close> over the latent child orders of all
  brackets.  \<^verbatim>\<open>oco_order\<close> is what the database returned; calling \<^verbatim>\<open>equals\<close> on \<^verbatim>\<open>None\<close>
  fails.
\<close>

fun reject_latent_child_orders ::
  "('e, 'f, 'd) collab \<Rightarrow> order option \<Rightarrow> order_id \<Rightarrow> order list \<Rightarrow> ('e, 'f, 'd) client
    \<Rightarrow> error + ('e, 'f, 'd) client" where
  "reject_latent_child_orders C oco_order order_id [] s = Inr s"
| "reject_latent_child_orders C oco_order order_id (order # rest) s =
    (case oco_order of
       None \<Rightarrow> Inl AttributeError
     | Some oo \<Rightarrow>
         reject_latent_child_orders C oco_order order_id rest
           (if order_equals oo order then reject_oco_order C order order_id s else s))"

definition check_oco_order ::
  "('e, 'f, 'd) collab \<Rightarrow> order_id \<Rightarrow> ('e, 'f, 'd) client \<Rightarrow> error + ('e, 'f, 'd) client" where
  "check_oco_order C order_id s =
    (case oco_orders s order_id of
       None \<Rightarrow> Inr s
     | Some oco_order_id \<Rightarrow>
         (let oco_order = get_order C (exec_engine s) oco_order_id;
              s1 = s\<lparr>oco_orders := (oco_orders s)(order_id := None)\<rparr>
          in case oco_orders s1 oco_order_id of
               None \<Rightarrow> Inl KeyError
             | Some _ \<Rightarrow>
                 (let s2 = s1\<lparr>oco_orders := (oco_orders s1)(oco_order_id := None)\<rparr>
                  in bindE (reject_latent_child_orders C oco_order order_id
                              (concat (map snd (atomic_child_orders s2))) s2)
                       (\<lambda>s3. case map_of (working_orders s3) oco_order_id of
                                None \<Rightarrow> Inr s3
                              | Some w \<Rightarrow>
                                  (let s4 = cancel_oco_order C w order_id s3
                                   in Inr (s4\<lparr>working_orders :=
                                             AList.delete oco_order_id (working_orders s4)\<rparr>))))))"

definition clean_up_child_orders ::
  "order_id \<Rightarrow> ('e, 'f, 'd) client \<Rightarrow> ('e, 'f, 'd) client" where
  "clean_up_child_orders order_id s =
    (case map_of (atomic_child_orders s) order_id of
       None \<Rightarrow> s
     | Some _ \<Rightarrow> s\<lparr>atomic_child_orders := AList.delete order_id (atomic_child_orders s)\<rparr>)"

definition accept_order ::
  "('e, 'f, 'd) collab \<Rightarrow> order \<Rightarrow> ('e, 'f, 'd) client \<Rightarrow> ('e, 'f, 'd) client" where
  "accept_order C order s = exec_engine_handle_event C (OrderAccepted (o_id order)) s"

definition reject_order ::
  "('e, 'f, 'd) collab \<Rightarrow> order \<Rightarrow> reject_reason \<Rightarrow> ('e, 'f, 'd) client
    \<Rightarrow> error + ('e, 'f, 'd) client" where
  "reject_order C order reason s =
    bindE (check_oco_order C (o_id order)
             (exec_engine_handle_event C (OrderRejected (o_id order) reason) s))
      (\<lambda>s1. Inr (clean_up_child_orders (o_id order) s1))"

text \<open>
  \<^verbatim>\<open>_cancel_reject_order\<close> declares its first parameter as \<^verbatim>\<open>OrderId order_id\<close>.  An
  argument of another extension type does not pass the type test of the call.
\<close>

definition cancel_reject_order ::
  "('e, 'f, 'd) collab \<Rightarrow> pyobject \<Rightarrow> string \<Rightarrow> cancel_reject_reason \<Rightarrow> ('e, 'f, 'd) client
    \<Rightarrow> error + ('e, 'f, 'd) client" where
  "cancel_reject_order C arg response reason s =
    (case arg of
       PyOrderId order_id \<Rightarrow>
         Inr (exec_engine_handle_event C (OrderCancelReject order_id response reason) s)
     | PyOrder _ \<Rightarrow> Inl TypeError)"

definition expire_order ::
  "('e, 'f, 'd) collab \<Rightarrow> order \<Rightarrow> ('e, 'f, 'd) client \<Rightarrow> error + ('e, 'f, 'd) client" where
  "expire_order C order s =
    (let s1 = exec_engine_handle_event C (OrderExpired (o_id order)) s
     in bindE
          (case map_of (atomic_child_orders s1) (o_id order) of
             Some children \<Rightarrow>
               (case children of
                  [] \<Rightarrow> Inl IndexError
                | first_child # _ \<Rightarrow>
                    (case oco_orders s1 (o_id first_child) of
                       None \<Rightarrow> Inr s1
                     | Some other_oco_order_id \<Rightarrow>
                         (let s2 = s1\<lparr>oco_orders := (oco_orders s1)(o_id first_child := None)\<rparr>
                          in case oco_orders s2 other_oco_order_id of
                               None \<Rightarrow> Inl KeyError
                             | Some _ \<Rightarrow>
                                 Inr (s2\<lparr>oco_orders :=
                                          (oco_orders s2)(other_oco_order_id := None)\<rparr>))))
           | None \<Rightarrow> check_oco_order C (o_id order) s1)
          (\<lambda>s3. Inr (clean_up_child_orders (o_id order) s3)))"

definition check_valid_price ::
  "('e, 'f, 'd) collab \<Rightarrow> order \<Rightarrow> tick \<Rightarrow> bool \<Rightarrow> ('e, 'f, 'd) client
    \<Rightarrow> error + (bool \<times> ('e, 'f, 'd) client)" where
  "check_valid_price C order current_market reject s =
    (if o_side order = BUY then
       (if o_type order \<in> STOP_ORDER_TYPES then
          (case min_stops s (o_symbol order) of
             None \<Rightarrow> Inl KeyError
           | Some d \<Rightarrow>
               if o_price order < tick_ask current_market + d then
                 (if reject then
                    bindE (reject_order C order
                             (BuyStopTooFar (o_price order) (tick_ask current_market)) s)
                      (\<lambda>s1. Inr (False, s1))
                  else Inr (False, s))
               else Inr (True, s))
        else if o_type order = LIMIT then
          (case min_limits s (o_symbol order) of
             None \<Rightarrow> Inl KeyError
           | Some d \<Rightarrow>
               if o_price order > tick_bid current_market - d then
                 (if reject then
                    bindE (reject_order C order
                             (BuyLimitTooFar (o_price order) (tick_bid current_market)) s)
                      (\<lambda>s1. Inr (False, s1))
                  else Inr (False, s))
               else Inr (True, s))
        else Inr (True, s))
     else
       (if o_type order \<in> STOP_ORDER_TYPES then
          (case min_stops s (o_symbol order) of
             None \<Rightarrow> Inl KeyError
           | Some d \<Rightarrow>
               if o_price order > tick_bid current_market - d then
                 (if reject then
                    bindE (reject_order C order
                             (SellStopTooFar (o_price order) (tick_bid current_market)) s)
                      (\<lambda>s1. Inr (False, s1))
                  else Inr (False, s))
               else Inr (True, s))
        else if o_type order = LIMIT then
          (case min_limits s (o_symbol order) of
             None \<Rightarrow> Inl KeyError
           | Some d \<Rightarrow>
               if o_price order < tick_ask current_market + d then
                 (if reject then
                    bindE (reject_order C order
                             (SellLimitTooFar (o_price order) (tick_ask current_market)) s)
                      (\<lambda>s1. Inr (False, s1))
                  else Inr (False, s))
               else Inr (True, s))
        else Inr (True, s)))"

text \<open>
  The marginal fill predicates.  Python's \<^verbatim>\<open>and\<close> asks the fill model only when the touch
  price equals the order price.
\<close>

definition is_marginal_buy_stop_fill ::
  "('e, 'f, 'd) collab \<Rightarrow> price \<Rightarrow> tick \<Rightarrow> ('e, 'f, 'd) client \<Rightarrow> bool \<times> ('e, 'f, 'd) client" where
  "is_marginal_buy_stop_fill C order_price current_market s =
    (if tick_ask current_market = order_price then
       (let (b, fm) = is_stop_filled C (fill_model s) in (b, s\<lparr>fill_model := fm\<rparr>))
     else (False, s))"

definition is_marginal_buy_limit_fill ::
  "('e, 'f, 'd) collab \<Rightarrow> price \<Rightarrow> tick \<Rightarrow> ('e, 'f, 'd) client \<Rightarrow> bool \<times> ('e, 'f, 'd) client" where
  "is_marginal_buy_limit_fill C order_price current_market s =
    (if tick_ask current_market = order_price then
       (let (b, fm) = is_limit_filled C (fill_model s) in (b, s\<lparr>fill_model := fm\<rparr>))
     else (False, s))"

definition is_marginal_sell_stop_fill ::
  "('e, 'f, 'd) collab \<Rightarrow> price \<Rightarrow> tick \<Rightarrow> ('e, 'f, 'd) client \<Rightarrow> bool \<times> ('e, 'f, 'd) client" where
  "is_marginal_sell_stop_fill C order_price current_market s =
    (if tick_bid current_market = order_price then
       (let (b, fm) = is_stop_filled C (fill_model s) in (b, s\<lparr>fill_model := fm\<rparr>))
     else (False, s))"

definition is_marginal_sell_limit_fill ::
  "('e, 'f, 'd) collab \<Rightarrow> price \<Rightarrow> tick \<Rightarrow> ('e, 'f, 'd) client \<Rightarrow> bool \<times> ('e, 'f, 'd) client" where
  "is_marginal_sell_limit_fill C order_price current_market s =
    (if tick_bid current_market = order_price then
       (let (b, fm) = is_limit_filled C (fill_model s) in (b, s\<lparr>fill_model := fm\<rparr>))
     else (False, s))"

section \<open>Account\<close>

definition calculate_pnl ::
  "('e, 'f, 'd) collab \<Rightarrow> market_position \<Rightarrow> 'd \<Rightarrow> 'd \<Rightarrow> quantity \<Rightarrow> 'd \<Rightarrow> error + money" where
  "calculate_pnl C direction open_price close_price quantity exchange_rate =
    (case direction of
       LONG \<Rightarrow>
         Inr (Money C (fmul C (fmul C (fsub C close_price open_price)
                (quantity_as_double C quantity)) exchange_rate))
     | SHORT \<Rightarrow>
         Inr (Money C (fmul C (fmul C (fsub C open_price close_price)
                (quantity_as_double C quantity)) exchange_rate))
     | FLAT \<Rightarrow> Inl ValueError)"

definition adjust_account ::
  "('e, 'f, 'd) collab \<Rightarrow> order_fill_event \<Rightarrow> 'd position \<Rightarrow> ('e, 'f, 'd) client
    \<Rightarrow> error + ('e, 'f, 'd) client" where
  "adjust_account C event position s =
    (case instruments s (ev_symbol event) of
       None \<Rightarrow> Inl KeyError
     | Some instrument \<Rightarrow>
         (let exchange_rate = get_rate C (i_quote_currency instrument) (account_currency s)
                (if ev_order_side event = SELL then BID else ASK)
                (build_current_bid_rates C s) (build_current_ask_rates C s)
          in bindE (calculate_pnl C (p_market_position position) (p_average_open_price position)
                      (price_as_double C (ev_average_price event)) (ev_filled_quantity event)
                      exchange_rate)
               (\<lambda>pnl0.
                  let commission = commission_calculate C (ev_symbol event)
                        (ev_filled_quantity event) (ev_average_price event) exchange_rate
                        (account_currency s);
                      s1 = s\<lparr>total_commissions := total_commissions s - commission,
                             closing_fills := closing_fills s @ [(pnl0, commission)]\<rparr>;
                      pnl = pnl0 - commission
                  in if \<not> frozen_account s1 then
                       (let s2 = s1\<lparr>account_capital := account_capital s1 + pnl,
                                    account_cash_activity_day :=
                                      account_cash_activity_day s1 + pnl\<rparr>
                        in Inr (exec_engine_handle_event C
                                  (AccountStateEvent (account_capital s2)
                                     (account_cash_start_day s2) (account_cash_activity_day s2))
                                  s2))
                     else Inr s1)))"

text \<open>
  The loop of \<^verbatim>\<open>apply_rollover_interest\<close> over the open positions; the accumulator holds
  the dictionary \<^verbatim>\<open>mid_prices\<close> and \<^verbatim>\<open>rollover_cumulative\<close>.
\<close>

fun rollover_positions ::
  "('e, 'f, 'd) collab \<Rightarrow> datetime \<Rightarrow> ('e, 'f, 'd) client \<Rightarrow> 'd position list
    \<Rightarrow> (symbol \<rightharpoonup> 'd) \<times> 'd \<Rightarrow> error + ((symbol \<rightharpoonup> 'd) \<times> 'd)" where
  "rollover_positions C timestamp s [] acc = Inr acc"
| "rollover_positions C timestamp s (position # rest) acc =
    (case instruments s (p_symbol position) of
       None \<Rightarrow> Inl KeyError
     | Some instrument \<Rightarrow>
         if i_security_type instrument = FOREX then
           (case (let mid_price = (case fst acc (i_symbol instrument) of
                                     None \<Rightarrow> f_zero C | Some m \<Rightarrow> m)
                  in if feq C mid_price (f_zero C) then
                       (case map_of (market s) (i_symbol instrument) of
                          None \<Rightarrow> Inl KeyError
                        | Some mkt \<Rightarrow>
                            (let m = fdiv C (fadd C (price_as_double C (tick_ask mkt))
                                       (price_as_double C (tick_bid mkt))) (f_two C)
                             in Inr (m, (fst acc)(i_symbol instrument \<mapsto> m))))
                     else Inr (mid_price, fst acc)) of
              Inl e \<Rightarrow> Inl e
            | Inr (mid_price, mid_prices) \<Rightarrow>
                (let interest_rate = calc_overnight_rate C (p_symbol position) timestamp;
                     exchange_rate = get_rate C (i_quote_currency instrument)
                       (account_currency s) MID
                       (build_current_bid_rates C s) (build_current_ask_rates C s);
                     rollover = fmul C (fmul C (fmul C mid_price
                       (quantity_as_double C (p_quantity position))) interest_rate) exchange_rate
                 in rollover_positions C timestamp s rest
                      (mid_prices,
                       fadd C (snd acc) (fsub C rollover (fmul C rollover (rollover_spread s))))))
         else rollover_positions C timestamp s rest acc)"

definition apply_rollover_interest ::
  "('e, 'f, 'd) collab \<Rightarrow> datetime \<Rightarrow> int \<Rightarrow> ('e, 'f, 'd) client \<Rightarrow> error + ('e, 'f, 'd) client" where
  "apply_rollover_interest C timestamp iso_week_day s =
    (if \<not> exec_db_registered s then Inr s
     else
       bindE (rollover_positions C timestamp s (get_positions_open C (exec_engine s))
                (Map.empty, f_zero C))
         (\<lambda>acc.
            let rollover_cumulative =
                  (if iso_week_day = 3 then fmul C (snd acc) (f_three C)
                   else if iso_week_day = 5 then fmul C (snd acc) (f_three C)
                   else snd acc);
                rollover_final = Money C rollover_cumulative;
                s1 = s\<lparr>total_rollover := total_rollover s + rollover_final,
                       applied_rollovers := applied_rollovers s @ [rollover_final]\<rparr>
            in if \<not> frozen_account s1 then
                 (let s2 = s1\<lparr>account_capital := account_capital s1 + rollover_final,
                              account_cash_activity_day :=
                                account_cash_activity_day s1 + rollover_final\<rparr>
                  in Inr (exec_engine_handle_event C
                            (AccountStateEvent (account_capital s2)
                               (account_cash_start_day s2) (account_cash_activity_day s2))
                            s2))
               else Inr s1))"


section \<open>Working and filling orders\<close>

text \<open>
  The tail of \<^verbatim>\<open>_process_order\<close>: the order is accepted, becomes working, and
  \<^verbatim>\<open>OrderWorking\<close> is generated.
\<close>

definition accept_and_work ::
  "('e, 'f, 'd) collab \<Rightarrow> order \<Rightarrow> ('e, 'f, 'd) client \<Rightarrow> ('e, 'f, 'd) client" where
  "accept_and_work C order s =
    (let s1 = accept_order C order s;
         s2 = s1\<lparr>working_orders := AList.update (o_id order) order (working_orders s1)\<rparr>
     in exec_engine_handle_event C (OrderWorking order) s2)"

text \<open>
  \<^verbatim>\<open>_process_order\<close> and \<^verbatim>\<open>_fill_order\<close> call each other: filling an order works its atomic
  child orders, and a child that is a MARKET order is filled at once.  The first argument
  after the collaborators bounds the depth of nested \<^verbatim>\<open>_fill_order\<close> calls; running out of
  it is the overflow of the call stack.  \<open>work_child_orders\<close> is the loop of \<^verbatim>\<open>_fill_order\<close>
  over the list object that was found under the order's id.
\<close>

fun process_order ::
  "('e, 'f, 'd) collab \<Rightarrow> nat \<Rightarrow> order \<Rightarrow> ('e, 'f, 'd) client \<Rightarrow> error + ('e, 'f, 'd) client"
and fill_order ::
  "('e, 'f, 'd) collab \<Rightarrow> nat \<Rightarrow> order \<Rightarrow> price \<Rightarrow> ('e, 'f, 'd) client
    \<Rightarrow> error + ('e, 'f, 'd) client"
and work_child_orders ::
  "('e, 'f, 'd) collab \<Rightarrow> nat \<Rightarrow> order list \<Rightarrow> ('e, 'f, 'd) client
    \<Rightarrow> error + ('e, 'f, 'd) client"
where
  "process_order C n order s =
    (case map_of (working_orders s) (o_id order) of
       Some _ \<Rightarrow> Inl ValueError
     | None \<Rightarrow>
        (case instruments s (o_symbol order) of
           None \<Rightarrow> Inl KeyError
         | Some instrument \<Rightarrow>
             if o_quantity order > i_max_trade_size instrument then
               reject_order C order
                 (QuantityExceedsMax (o_quantity order) (i_max_trade_size instrument)) s
             else if o_quantity order < i_min_trade_size instrument then
               reject_order C order
                 (QuantityBelowMin (o_quantity order) (i_min_trade_size instrument)) s
             else
               (case map_of (market s) (o_symbol order) of
                  None \<Rightarrow> reject_order C order (NoMarket (o_symbol order)) s
                | Some current_market \<Rightarrow>
                    (case check_valid_price C order current_market True s of
                       Inl e \<Rightarrow> Inl e
                     | Inr (valid, s1) \<Rightarrow>
                         if \<not> valid then Inr s1
                         else if o_type order = MARKET then
                           (let s2 = accept_order C order s1
                            in if o_side order = BUY then
                                 (let (slipped, fm) = is_slipped C (fill_model s2);
                                      s3 = s2\<lparr>fill_model := fm\<rparr>
                                  in if slipped then
                                       (case slippages s3 (o_symbol order) of
                                          None \<Rightarrow> Inl KeyError
                                        | Some slippage \<Rightarrow>
                                            fill_order C n order
                                              (tick_ask current_market + slippage) s3)
                                     else fill_order C n order (tick_ask current_market) s3)
                               else if o_type order = MARKET then
                                 (let (slipped, fm) = is_slipped C (fill_model s2);
                                      s3 = s2\<lparr>fill_model := fm\<rparr>
                                  in if slipped then
                                       (case slippages s3 (o_symbol order) of
                                          None \<Rightarrow> Inl KeyError
                                        | Some slippage \<Rightarrow>
                                            fill_order C n order
                                              (tick_bid current_market - slippage) s3)
                                     else fill_order C n order (tick_bid current_market) s3)
                               else Inr (accept_and_work C order s2))
                         else Inr (accept_and_work C order s1)))))"
| "fill_order C 0 order fill_price s = Inl RecursionError"
| "fill_order C (Suc n) order fill_price s =
    (case instruments s (o_symbol order) of
       None \<Rightarrow> Inl KeyError
     | Some instrument \<Rightarrow>
        (let filled = \<lparr>ev_order_id = o_id order, ev_symbol = o_symbol order,
                        ev_order_side = o_side order, ev_filled_quantity = o_quantity order,
                        ev_average_price = fill_price\<rparr>
         in case (case get_position_for_order C (exec_engine s) (o_id order) of
                    None \<Rightarrow> Inr s
                  | Some position \<Rightarrow>
                      if p_entry_direction position \<noteq> o_side order
                      then adjust_account C filled position s else Inr s) of
              Inl e \<Rightarrow> Inl e
            | Inr s1 \<Rightarrow>
               (case check_oco_order C (o_id order)
                       (exec_engine_handle_event C (OrderFilled filled) s1) of
                  Inl e \<Rightarrow> Inl e
                | Inr s2 \<Rightarrow>
                   (case map_of (atomic_child_orders s2) (o_id order) of
                      None \<Rightarrow> Inr s2
                    | Some children \<Rightarrow>
                       (case work_child_orders C n children s2 of
                          Inl e \<Rightarrow> Inl e
                        | Inr s3 \<Rightarrow>
                           (case map_of (atomic_child_orders s3) (o_id order) of
                              None \<Rightarrow> Inl KeyError
                            | Some _ \<Rightarrow>
                                Inr (s3\<lparr>atomic_child_orders :=
                                        AList.delete (o_id order)
                                          (atomic_child_orders s3)\<rparr>)))))))"
| "work_child_orders C n [] s = Inr s"
| "work_child_orders C n (child_order # rest) s =
    (if \<not> order_is_completed C (exec_engine s) child_order then
       (case process_order C n child_order s of
          Inl e \<Rightarrow> Inl e
        | Inr s1 \<Rightarrow> work_child_orders C n rest s1)
     else work_child_orders C n rest s)"

section \<open>Tick processing\<close>

text \<open>
  The block that each filling branch of the matching loop repeats: the order leaves
  \<^verbatim>\<open>_working_orders\<close>, the fill model is asked for slippage, the order is filled.  The BUY
  branches add the slippage to the order price, the SELL branches subtract it.
\<close>

definition fill_working_add ::
  "('e, 'f, 'd) collab \<Rightarrow> nat \<Rightarrow> order \<Rightarrow> ('e, 'f, 'd) client \<Rightarrow> error + ('e, 'f, 'd) client" where
  "fill_working_add C n order s =
    (case map_of (working_orders s) (o_id order) of
       None \<Rightarrow> Inl KeyError
     | Some _ \<Rightarrow>
         (let s1 = s\<lparr>working_orders := AList.delete (o_id order) (working_orders s)\<rparr>;
              (slipped, fm) = is_slipped C (fill_model s1);
              s2 = s1\<lparr>fill_model := fm\<rparr>
          in if slipped then
               (case slippages s2 (o_symbol order) of
                  None \<Rightarrow> Inl KeyError
                | Some slippage \<Rightarrow> fill_order C n order (o_price order + slippage) s2)
             else fill_order C n order (o_price order) s2))"

definition fill_working_subtract ::
  "('e, 'f, 'd) collab \<Rightarrow> nat \<Rightarrow> order \<Rightarrow> ('e, 'f, 'd) client \<Rightarrow> error + ('e, 'f, 'd) client" where
  "fill_working_subtract C n order s =
    (case map_of (working_orders s) (o_id order) of
       None \<Rightarrow> Inl KeyError
     | Some _ \<Rightarrow>
         (let s1 = s\<lparr>working_orders := AList.delete (o_id order) (working_orders s)\<rparr>;
              (slipped, fm) = is_slipped C (fill_model s1);
              s2 = s1\<lparr>fill_model := fm\<rparr>
          in if slipped then
               (case slippages s2 (o_symbol order) of
                  None \<Rightarrow> Inl KeyError
                | Some slippage \<Rightarrow> fill_order C n order (o_price order - slippage) s2)
             else fill_order C n order (o_price order) s2))"

text \<open>The check for order expiry at the end of the loop body.\<close>

definition check_order_expiry ::
  "('e, 'f, 'd) collab \<Rightarrow> datetime \<Rightarrow> order \<Rightarrow> ('e, 'f, 'd) client \<Rightarrow> error + ('e, 'f, 'd) client" where
  "check_order_expiry C time_now order s =
    (case o_expire_time order of
       None \<Rightarrow> Inr s
     | Some expire_time \<Rightarrow>
         if time_now \<ge> expire_time then
           (case map_of (working_orders s) (o_id order) of
              None \<Rightarrow> Inr s
            | Some _ \<Rightarrow>
                expire_order C order
                  (s\<lparr>working_orders := AList.delete (o_id order) (working_orders s)\<rparr>))
         else Inr s)"

text \<open>
  One pass of the body of the matching loop.  Python's \<^verbatim>\<open>or\<close> evaluates the marginal fill
  predicate only when the first comparison is false.
\<close>

definition match_order ::
  "('e, 'f, 'd) collab \<Rightarrow> nat \<Rightarrow> tick \<Rightarrow> datetime \<Rightarrow> order \<Rightarrow> ('e, 'f, 'd) client
    \<Rightarrow> error + ('e, 'f, 'd) client" where
  "match_order C n tick time_now order s =
    (if o_symbol order \<noteq> tick_symbol tick then Inr s
     else if order_state_of C (exec_engine s) order \<noteq> WORKING then Inr s
     else
       (case instruments s (o_symbol order) of
          None \<Rightarrow> Inl KeyError
        | Some instrument \<Rightarrow>
            if o_side order = BUY then
              (if o_type order \<in> STOP_ORDER_TYPES then
                 (let (hit, s1) = (if tick_ask tick \<ge> o_price order then (True, s)
                                   else is_marginal_buy_stop_fill C (o_price order) tick s)
                  in if hit then fill_working_add C n order s1
                     else check_order_expiry C time_now order s1)
               else if o_type order = LIMIT then
                 (let (hit, s1) = (if tick_ask tick \<le> o_price order then (True, s)
                                   else is_marginal_buy_limit_fill C (o_price order) tick s)
                  in if hit then fill_working_add C n order s1
                     else check_order_expiry C time_now order s1)
               else check_order_expiry C time_now order s)
            else
              (if o_type order \<in> STOP_ORDER_TYPES then
                 (let (hit, s1) = (if tick_bid tick \<le> o_price order then (True, s)
                                   else is_marginal_sell_stop_fill C (o_price order) tick s)
                  in if hit then fill_working_subtract C n order s1
                     else check_order_expiry C time_now order s1)
               else if o_type order = LIMIT then
                 (let (hit, s1) = (if tick_bid tick \<ge> o_price order then (True, s)
                                   else is_marginal_sell_limit_fill C (o_price order) tick s)
                  in if hit then fill_working_subtract C n order s1
                     else check_order_expiry C time_now order s1)
               else check_order_expiry C time_now order s)))"

text \<open>The matching loop over the copy of the working orders taken before it starts.\<close>

fun match_orders ::
  "('e, 'f, 'd) collab \<Rightarrow> nat \<Rightarrow> tick \<Rightarrow> datetime \<Rightarrow> order list \<Rightarrow> ('e, 'f, 'd) client
    \<Rightarrow> error + ('e, 'f, 'd) client" where
  "match_orders C n tick time_now [] s = Inr s"
| "match_orders C n tick time_now (order # rest) s =
    (case match_order C n tick time_now order s of
       Inl e \<Rightarrow> Inl e
     | Inr s1 \<Rightarrow> match_orders C n tick time_now rest s1)"

definition process_tick ::
  "('e, 'f, 'd) collab \<Rightarrow> nat \<Rightarrow> tick \<Rightarrow> ('e, 'f, 'd) client \<Rightarrow> error + ('e, 'f, 'd) client" where
  "process_tick C n tick s =
    (let s1 = s\<lparr>clock := tick_timestamp tick,
                market := AList.update (tick_symbol tick) tick (market s)\<rparr>;
         time_now = clock s1;
         s2 = (if day_number s1 \<noteq> day_of C time_now then
                 s1\<lparr>day_number := day_of C time_now,
                    account_cash_start_day := account_cash_balance C (exec_engine s1),
                    account_cash_activity_day := 0,
                    rollover_applied := False,
                    rollover_time := Some (rollover_time_of C time_now)\<rparr>
               else s1)
     in bindE
          (if \<not> rollover_applied s2 then
             (case rollover_time s2 of
                None \<Rightarrow> Inl TypeError
              | Some rt \<Rightarrow>
                  if time_now \<ge> rt then
                    bindE (apply_rollover_interest C time_now (isoweekday C rt) s2)
                      (\<lambda>s3. Inr (s3\<lparr>rollover_applied := True\<rparr>))
                  else Inr s2)
           else Inr s2)
          (\<lambda>s3. if working_orders s3 = [] then Inr s3
                 else match_orders C n tick time_now (map snd (working_orders s3)) s3))"

section \<open>Command execution\<close>

definition account_inquiry ::
  "('e, 'f, 'd) collab \<Rightarrow> ('e, 'f, 'd) client \<Rightarrow> ('e, 'f, 'd) client" where
  "account_inquiry C s =
    exec_engine_handle_event C
      (AccountStateEvent (account_cash_balance C (exec_engine s))
         (account_cash_start_day s) (account_cash_activity_day s)) s"

definition submit_order ::
  "('e, 'f, 'd) collab \<Rightarrow> nat \<Rightarrow> order \<Rightarrow> ('e, 'f, 'd) client \<Rightarrow> error + ('e, 'f, 'd) client" where
  "submit_order C n order s =
    process_order C n order (exec_engine_handle_event C (OrderSubmitted (o_id order)) s)"

definition submit_atomic_order ::
  "('e, 'f, 'd) collab \<Rightarrow> nat \<Rightarrow> order \<Rightarrow> order \<Rightarrow> order option \<Rightarrow> ('e, 'f, 'd) client
    \<Rightarrow> error + ('e, 'f, 'd) client" where
  "submit_atomic_order C n entry stop_loss take_profit s =
    (let (atomic_orders, s1) =
           (case take_profit of
              None \<Rightarrow> ([stop_loss], s)
            | Some tp \<Rightarrow>
                ([stop_loss, tp],
                 s\<lparr>oco_orders := (oco_orders s)(o_id tp \<mapsto> o_id stop_loss,
                                                o_id stop_loss \<mapsto> o_id tp)\<rparr>));
         s2 = s1\<lparr>atomic_child_orders :=
                  AList.update (o_id entry) atomic_orders (atomic_child_orders s1)\<rparr>
     in submit_order C n entry s2)"

definition cancel_order ::
  "('e, 'f, 'd) collab \<Rightarrow> order_id \<Rightarrow> ('e, 'f, 'd) client \<Rightarrow> error + ('e, 'f, 'd) client" where
  "cancel_order C order_id s =
    (case map_of (working_orders s) order_id of
       None \<Rightarrow> cancel_reject_order C (PyOrderId order_id) ''cancel order'' OrderNotFound s
     | Some order \<Rightarrow>
         (let s1 = s\<lparr>working_orders := AList.delete order_id (working_orders s)\<rparr>
          in check_oco_order C order_id
               (exec_engine_handle_event C (OrderCancelled (o_id order)) s1)))"

definition modify_order ::
  "('e, 'f, 'd) collab \<Rightarrow> order_id \<Rightarrow> quantity \<Rightarrow> price \<Rightarrow> ('e, 'f, 'd) client
    \<Rightarrow> error + ('e, 'f, 'd) client" where
  "modify_order C order_id modified_quantity modified_price s =
    (case map_of (working_orders s) order_id of
       None \<Rightarrow> cancel_reject_order C (PyOrderId order_id) ''modify order'' OrderNotFound s
     | Some order \<Rightarrow>
         (case instruments s (o_symbol order) of
            None \<Rightarrow> Inl KeyError
          | Some instrument \<Rightarrow>
              if feq C (quantity_as_double C modified_quantity) (f_zero C) then
                cancel_reject_order C (PyOrder order) ''modify order''
                  (ModifiedQuantityInvalid modified_quantity) s
              else
                (case map_of (market s) (o_symbol order) of
                   None \<Rightarrow> Inl KeyError
                 | Some current_market \<Rightarrow>
                     bindE (check_valid_price C order current_market True s)
                       (\<lambda>(valid, s1).
                          if \<not> valid then Inr s1
                          else Inr (exec_engine_handle_event C
                                      (OrderModified (o_id order) modified_quantity
                                         modified_price) s1)))))"

definition change_fill_model :: "'f \<Rightarrow> ('e, 'f, 'd) client \<Rightarrow> ('e, 'f, 'd) client" where
  "change_fill_model fm s = s\<lparr>fill_model := fm\<rparr>"

text \<open>\<^verbatim>\<open>reset\<close>; the history of adjustments and rollovers starts again with the account.\<close>

definition reset :: "('e, 'f, 'd) client \<Rightarrow> ('e, 'f, 'd) client" where
  "reset s =
    s\<lparr>day_number := 0,
      account_capital := starting_capital s,
      account_cash_start_day := starting_capital s,
      account_cash_activity_day := 0,
      total_commissions := 0,
      total_rollover := 0,
      market := [],
      working_orders := [],
      atomic_child_orders := [],
      oco_orders := Map.empty,
      closing_fills := [],
      applied_rollovers := []\<rparr>"

subsection \<open>Runs of the client\<close>

text \<open>The public operations, and the runs of the client over a list of them.\<close>

datatype ('f, 'd) operation =
    ProcessTick tick
  | AdjustAccount order_fill_event "'d position"
  | ApplyRolloverInterest datetime int
  | AccountInquiry
  | SubmitOrder order
  | SubmitAtomicOrder order order "order option"
  | CancelOrder order_id
  | ModifyOrder order_id quantity price
  | ChangeFillModel 'f
  | Reset

fun step ::
  "('e, 'f, 'd) collab \<Rightarrow> nat \<Rightarrow> ('f, 'd) operation \<Rightarrow> ('e, 'f, 'd) client
    \<Rightarrow> error + ('e, 'f, 'd) client" where
  "step C n (ProcessTick tick) s = process_tick C n tick s"
| "step C n (AdjustAccount event position) s = adjust_account C event position s"
| "step C n (ApplyRolloverInterest timestamp iso_week_day) s =
    apply_rollover_interest C timestamp iso_week_day s"
| "step C n AccountInquiry s = Inr (account_inquiry C s)"
| "step C n (SubmitOrder order) s = submit_order C n order s"
| "step C n (SubmitAtomicOrder entry stop_loss take_profit) s =
    submit_atomic_order C n entry stop_loss take_profit s"
| "step C n (CancelOrder order_id) s = cancel_order C order_id s"
| "step C n (ModifyOrder order_id modified_quantity modified_price) s =
    modify_order C order_id modified_quantity modified_price s"
| "step C n (ChangeFillModel fm) s = Inr (change_fill_model fm s)"
| "step C n Reset s = Inr (reset s)"

fun run ::
  "('e, 'f, 'd) collab \<Rightarrow> nat \<Rightarrow> ('f, 'd) operation list \<Rightarrow> ('e, 'f, 'd) client
    \<Rightarrow> error + ('e, 'f, 'd) client" where
  "run C n [] s = Inr s"
| "run C n (op # ops) s =
    (case step C n op s of Inl e \<Rightarrow> Inl e | Inr s1 \<Rightarrow> run C n ops s1)"

section \<open>Decomposition of order processing\<close>

text \<open>
  \<^verbatim>\<open>_process_order\<close> up to the point where it has finished with the order (rejected, or
  accepted and working) or is about to fill it at a price; and \<^verbatim>\<open>_fill_order\<close> up to the
  point where it looks for atomic child orders.  Both are restatements of the functions
  above without the recursion, used in the proofs.
\<close>

datatype ('e, 'f, 'd) outcome =
    Finished "('e, 'f, 'd) client"
  | ToFill price "('e, 'f, 'd) client"

definition market_fill ::
  "('e, 'f, 'd) collab \<Rightarrow> order \<Rightarrow> tick \<Rightarrow> ('e, 'f, 'd) client \<Rightarrow> error + ('e, 'f, 'd) outcome" where
  "market_fill C order current_market s1 =
    (let s2 = accept_order C order s1;
         (slipped, fm) = is_slipped C (fill_model s2);
         s3 = s2\<lparr>fill_model := fm\<rparr>
     in if slipped then
          (case slippages s3 (o_symbol order) of
             None \<Rightarrow> Inl KeyError
           | Some slippage \<Rightarrow>
               Inr (ToFill (if o_side order = BUY then tick_ask current_market + slippage
                            else tick_bid current_market - slippage) s3))
        else Inr (ToFill (if o_side order = BUY then tick_ask current_market
                          else tick_bid current_market) s3))"

definition validate_order ::
  "('e, 'f, 'd) collab \<Rightarrow> order \<Rightarrow> ('e, 'f, 'd) client \<Rightarrow> error + ('e, 'f, 'd) outcome" where
  "validate_order C order s =
    (case map_of (working_orders s) (o_id order) of
       Some _ \<Rightarrow> Inl ValueError
     | None \<Rightarrow>
        (case instruments s (o_symbol order) of
           None \<Rightarrow> Inl KeyError
         | Some instrument \<Rightarrow>
             if o_quantity order > i_max_trade_size instrument then
               bindE (reject_order C order
                        (QuantityExceedsMax (o_quantity order) (i_max_trade_size instrument)) s)
                 (\<lambda>s1. Inr (Finished s1))
             else if o_quantity order < i_min_trade_size instrument then
               bindE (reject_order C order
                        (QuantityBelowMin (o_quantity order) (i_min_trade_size instrument)) s)
                 (\<lambda>s1. Inr (Finished s1))
             else
               (case map_of (market s) (o_symbol order) of
                  None \<Rightarrow>
                    bindE (reject_order C order (NoMarket (o_symbol order)) s)
                      (\<lambda>s1. Inr (Finished s1))
                | Some current_market \<Rightarrow>
                    bindE (check_valid_price C order current_market True s)
                      (\<lambda>(valid, s1).
                         if \<not> valid then Inr (Finished s1)
                         else if o_type order = MARKET then market_fill C order current_market s1
                         else Inr (Finished (accept_and_work C order s1))))))"

definition announce_fill ::
  "('e, 'f, 'd) collab \<Rightarrow> order \<Rightarrow> price \<Rightarrow> ('e, 'f, 'd) client \<Rightarrow> error + ('e, 'f, 'd) client" where
  "announce_fill C order fill_price s =
    (case instruments s (o_symbol order) of
       None \<Rightarrow> Inl KeyError
     | Some instrument \<Rightarrow>
        (let filled = \<lparr>ev_order_id = o_id order, ev_symbol = o_symbol order,
                        ev_order_side = o_side order, ev_filled_quantity = o_quantity order,
                        ev_average_price = fill_price\<rparr>
         in bindE (case get_position_for_order C (exec_engine s) (o_id order) of
                     None \<Rightarrow> Inr s
                   | Some position \<Rightarrow>
                       if p_entry_direction position \<noteq> o_side order
                       then adjust_account C filled position s else Inr s)
              (\<lambda>s1. check_oco_order C (o_id order)
                       (exec_engine_handle_event C (OrderFilled filled) s1))))"

section \<open>Predicates of the verification\<close>

text \<open>
  The events that report a fill.
\<close>

definition is_fill :: "event \<Rightarrow> bool" where
  "is_fill ev = (case ev of OrderFilled _ \<Rightarrow> True | _ \<Rightarrow> False)"

text \<open>The OCO map is symmetric and has no self-pairs.\<close>

definition oco_symmetric :: "(order_id \<rightharpoonup> order_id) \<Rightarrow> bool" where
  "oco_symmetric m \<longleftrightarrow> (\<forall>a b. m a = Some b \<longrightarrow> m b = Some a \<and> a \<noteq> b)"

text \<open>
  What has been booked on the account since it was last reset: pnl minus commission of every
  closing fill, plus every rollover amount.
\<close>

definition booked :: "('e, 'f, 'd) client \<Rightarrow> money" where
  "booked s =
    sum_list (map (\<lambda>(pnl, commission). pnl - commission) (closing_fills s))
    + sum_list (applied_rollovers s)"

text \<open>
  The capital of the account without what has been booked on it; nothing is booked on
  the capital of a frozen account.
\<close>

definition ledger_base :: "('e, 'f, 'd) client \<Rightarrow> money" where
  "ledger_base s =
    (if frozen_account s then account_capital s else account_capital s - booked s)"

text \<open>
  What every step of order processing keeps: the configuration, the capital that is not
  accounted for by bookings, the symmetry of the OCO map, and the events already emitted.
\<close>

definition steady :: "('e, 'f, 'd) client \<Rightarrow> ('e, 'f, 'd) client \<Rightarrow> bool" where
  "steady s s' \<longleftrightarrow>
     frozen_account s' = frozen_account s \<and> starting_capital s' = starting_capital s
     \<and> ledger_base s' = ledger_base s
     \<and> total_rollover s' - sum_list (applied_rollovers s')
         = total_rollover s - sum_list (applied_rollovers s)
     \<and> total_commissions s' + sum_list (map snd (closing_fills s'))
         = total_commissions s + sum_list (map snd (closing_fills s))
     \<and> instruments s' = instruments s \<and> slippages s' = slippages s
     \<and> min_stops s' = min_stops s \<and> min_limits s' = min_limits s
     \<and> (oco_symmetric (oco_orders s) \<longrightarrow> oco_symmetric (oco_orders s'))
     \<and> (\<exists>evs. events s' = events s @ evs)"

text \<open>
  The relation of the steps that only generate events or ask the fill model: the account,
  the history of bookings, the configuration and the three maps of orders stay as they are.
\<close>

definition untouched :: "('e, 'f, 'd) client \<Rightarrow> ('e, 'f, 'd) client \<Rightarrow> bool" where
  "untouched s s' \<longleftrightarrow>
     frozen_account s' = frozen_account s \<and> starting_capital s' = starting_capital s
     \<and> account_capital s' = account_capital s \<and> closing_fills s' = closing_fills s
     \<and> applied_rollovers s' = applied_rollovers s
     \<and> total_rollover s' = total_rollover s \<and> total_commissions s' = total_commissions s
     \<and> instruments s' = instruments s \<and> slippages s' = slippages s
     \<and> min_stops s' = min_stops s \<and> min_limits s' = min_limits s
     \<and> working_orders s' = working_orders s
     \<and> atomic_child_orders s' = atomic_child_orders s
     \<and> oco_orders s' = oco_orders s"

text \<open>
  The reasons with which \<^verbatim>\<open>_check_valid_price\<close> rejects an order; and the test of
  \<^verbatim>\<open>_check_valid_price\<close> without its effects: the reason to reject the order at the current
  market, if there is one.
\<close>

definition price_reason :: "reject_reason \<Rightarrow> bool" where
  "price_reason r =
    (case r of BuyStopTooFar _ _ \<Rightarrow> True | BuyLimitTooFar _ _ \<Rightarrow> True
     | SellStopTooFar _ _ \<Rightarrow> True | SellLimitTooFar _ _ \<Rightarrow> True | _ \<Rightarrow> False)"

definition price_violation ::
  "('e, 'f, 'd) client \<Rightarrow> order \<Rightarrow> tick \<Rightarrow> error + reject_reason option" where
  "price_violation s order cm =
    (if o_side order = BUY then
       (if o_type order \<in> STOP_ORDER_TYPES then
          (case min_stops s (o_symbol order) of
             None \<Rightarrow> Inl KeyError
           | Some d \<Rightarrow>
               if o_price order < tick_ask cm + d
               then Inr (Some (BuyStopTooFar (o_price order) (tick_ask cm))) else Inr None)
        else if o_type order = LIMIT then
          (case min_limits s (o_symbol order) of
             None \<Rightarrow> Inl KeyError
           | Some d \<Rightarrow>
               if o_price order > tick_bid cm - d
               then Inr (Some (BuyLimitTooFar (o_price order) (tick_bid cm))) else Inr None)
        else Inr None)
     else
       (if o_type order \<in> STOP_ORDER_TYPES then
          (case min_stops s (o_symbol order) of
             None \<Rightarrow> Inl KeyError
           | Some d \<Rightarrow>
               if o_price order > tick_bid cm - d
               then Inr (Some (SellStopTooFar (o_price order) (tick_bid cm))) else Inr None)
        else if o_type order = LIMIT then
          (case min_limits s (o_symbol order) of
             None \<Rightarrow> Inl KeyError
           | Some d \<Rightarrow>
               if o_price order < tick_ask cm + d
               then Inr (Some (SellLimitTooFar (o_price order) (tick_ask cm))) else Inr None)
        else Inr None))"

text \<open>
  The bookkeeping that ends \<^verbatim>\<open>adjust_account\<close>, for a pnl and a commission, and the one
  that ends \<^verbatim>\<open>apply_rollover_interest\<close>, for a rollover amount.
\<close>

definition book_fill ::
  "('e, 'f, 'd) collab \<Rightarrow> money \<Rightarrow> money \<Rightarrow> ('e, 'f, 'd) client \<Rightarrow> ('e, 'f, 'd) client" where
  "book_fill C pnl0 commission s =
    (let s1 = s\<lparr>total_commissions := total_commissions s - commission,
                closing_fills := closing_fills s @ [(pnl0, commission)]\<rparr>
     in if \<not> frozen_account s then
          exec_engine_handle_event C
            (AccountStateEvent (account_capital s + (pnl0 - commission))
               (account_cash_start_day s)
               (account_cash_activity_day s + (pnl0 - commission)))
            (s1\<lparr>account_capital := account_capital s + (pnl0 - commission),
                account_cash_activity_day :=
                  account_cash_activity_day s + (pnl0 - commission)\<rparr>)
        else s1)"

definition book_rollover ::
  "('e, 'f, 'd) collab \<Rightarrow> money \<Rightarrow> ('e, 'f, 'd) client \<Rightarrow> ('e, 'f, 'd) client" where
  "book_rollover C r s =
    (let s1 = s\<lparr>total_rollover := total_rollover s + r,
                applied_rollovers := applied_rollovers s @ [r]\<rparr>
     in if \<not> frozen_account s then
          exec_engine_handle_event C
            (AccountStateEvent (account_capital s + r) (account_cash_start_day s)
               (account_cash_activity_day s + r))
            (s1\<lparr>account_capital := account_capital s + r,
                account_cash_activity_day := account_cash_activity_day s + r\<rparr>)
        else s1)"

text \<open>
  The rollover is tripled on the third and on the fifth day of the week; the two tests are
  those of the source.
\<close>

definition weekday_total :: "('e, 'f, 'd) collab \<Rightarrow> int \<Rightarrow> 'd \<Rightarrow> 'd" where
  "weekday_total C iso_week_day cumulative =
    (if iso_week_day = 3 then fmul C cumulative (f_three C)
     else if iso_week_day = 5 then fmul C cumulative (f_three C)
     else cumulative)"

text \<open>
  The rejections of \<^verbatim>\<open>_process_order\<close> that come before the price check.
\<close>

definition size_rejection :: "('e, 'f, 'd) client \<Rightarrow> order \<Rightarrow> reject_reason \<Rightarrow> bool" where
  "size_rejection s order r =
    (case instruments s (o_symbol order) of
       None \<Rightarrow> False
     | Some i \<Rightarrow>
         (r = QuantityExceedsMax (o_quantity order) (i_max_trade_size i)
            \<and> o_quantity order > i_max_trade_size i)
         \<or> (r = QuantityBelowMin (o_quantity order) (i_min_trade_size i)
            \<and> o_quantity order < i_min_trade_size i)
         \<or> (r = NoMarket (o_symbol order) \<and> map_of (market s) (o_symbol order) = None))"

text \<open>
  The rollover of one position in the words of the spec: mid price times quantity times
  overnight rate times exchange rate, less the spread markup; and its sum over the open
  positions whose instrument is FX.  The sum is undefined when the instrument of a position
  or the market of an FX instrument is missing.
\<close>

definition position_rollover ::
  "('e, 'f, 'd) collab \<Rightarrow> datetime \<Rightarrow> ('e, 'f, 'd) client \<Rightarrow> instrument \<Rightarrow> tick
    \<Rightarrow> 'd position \<Rightarrow> 'd" where
  "position_rollover C timestamp s instrument mkt position =
    (let mid_price = fdiv C (fadd C (price_as_double C (tick_ask mkt))
                        (price_as_double C (tick_bid mkt))) (f_two C);
         rollover = fmul C (fmul C (fmul C mid_price
                      (quantity_as_double C (p_quantity position)))
                      (calc_overnight_rate C (p_symbol position) timestamp))
                      (get_rate C (i_quote_currency instrument) (account_currency s) MID
                         (build_current_bid_rates C s) (build_current_ask_rates C s))
     in fsub C rollover (fmul C rollover (rollover_spread s)))"

fun rollover_sum ::
  "('e, 'f, 'd) collab \<Rightarrow> datetime \<Rightarrow> ('e, 'f, 'd) client \<Rightarrow> 'd position list \<Rightarrow> 'd
    \<Rightarrow> 'd option" where
  "rollover_sum C timestamp s [] running = Some running"
| "rollover_sum C timestamp s (position # rest) running =
    (case instruments s (p_symbol position) of
       None \<Rightarrow> None
     | Some instrument \<Rightarrow>
         if i_security_type instrument = FOREX then
           (case map_of (market s) (i_symbol instrument) of
              None \<Rightarrow> None
            | Some mkt \<Rightarrow>
                rollover_sum C timestamp s rest
                  (fadd C running (position_rollover C timestamp s instrument mkt position)))
         else rollover_sum C timestamp s rest running)"

text \<open>
  The mid price of a tick in double arithmetic.
\<close>

definition mid_of :: "('e, 'f, 'd) collab \<Rightarrow> tick \<Rightarrow> 'd" where
  "mid_of C mkt =
    fdiv C (fadd C (price_as_double C (tick_ask mkt)) (price_as_double C (tick_bid mkt)))
      (f_two C)"


subsection \<open>Conditions on the operations of a run\<close>

text \<open>
  \<open>distinct_children\<close>: an atomic submission has distinct identifiers for stop-loss and
  take-profit.  \<open>oco_fresh\<close>: moreover neither identifier is a key of the OCO map in the
  state the submission is applied to.  \<open>along G\<close>: every operation of the run satisfies \<open>G\<close>
  in the state it is applied to, as far as the run gets.
\<close>

fun distinct_children :: "('f, 'd) operation \<Rightarrow> bool" where
  "distinct_children (SubmitAtomicOrder entry stop_loss (Some take_profit)) =
    (o_id stop_loss \<noteq> o_id take_profit)"
| "distinct_children _ = True"

fun oco_fresh :: "('f, 'd) operation \<Rightarrow> ('e, 'f, 'd) client \<Rightarrow> bool" where
  "oco_fresh (SubmitAtomicOrder entry stop_loss (Some take_profit)) s =
    (o_id stop_loss \<noteq> o_id take_profit
     \<and> oco_orders s (o_id stop_loss) = None \<and> oco_orders s (o_id take_profit) = None)"
| "oco_fresh _ s = True"

fun along ::
  "(('f, 'd) operation \<Rightarrow> ('e, 'f, 'd) client \<Rightarrow> bool) \<Rightarrow> ('e, 'f, 'd) collab \<Rightarrow> nat
    \<Rightarrow> ('f, 'd) operation list \<Rightarrow> ('e, 'f, 'd) client \<Rightarrow> bool" where
  "along G C n [] s = True"
| "along G C n (op # ops) s =
    (G op s \<and> (case step C n op s of Inl _ \<Rightarrow> True | Inr s1 \<Rightarrow> along G C n ops s1))"

subsection \<open>Atomic child orders\<close>

text \<open>
  The identifiers of the working orders, of the brackets (the entry orders that have latent
  child orders), and of the orders for which \<^verbatim>\<open>OrderFilled\<close> has been generated.
\<close>

definition working_ids :: "('e, 'f, 'd) client \<Rightarrow> order_id set" where
  "working_ids s = fst ` set (working_orders s)"

definition bracket_ids :: "('e, 'f, 'd) client \<Rightarrow> order_id set" where
  "bracket_ids s = fst ` set (atomic_child_orders s)"

definition filled_ids :: "('e, 'f, 'd) client \<Rightarrow> order_id list" where
  "filled_ids s =
    concat (map (\<lambda>ev. case ev of OrderFilled f \<Rightarrow> [ev_order_id f] | _ \<Rightarrow> []) (events s))"

text \<open>
  The list \<^verbatim>\<open>atomic_orders\<close> that \<^verbatim>\<open>submit_atomic_order\<close> builds; the pairs of child and entry
  identifier that an operation submits; and the identifiers it submits for processing
  through \<^verbatim>\<open>submit_order\<close>.
\<close>

definition atomic_orders :: "order \<Rightarrow> order option \<Rightarrow> order list" where
  "atomic_orders stop_loss take_profit =
    (case take_profit of None \<Rightarrow> [stop_loss] | Some tp \<Rightarrow> [stop_loss, tp])"

fun child_parents :: "('f, 'd) operation \<Rightarrow> (order_id \<times> order_id) list" where
  "child_parents (SubmitAtomicOrder entry stop_loss take_profit) =
    map (\<lambda>c. (o_id c, o_id entry)) (atomic_orders stop_loss take_profit)"
| "child_parents _ = []"

fun plain_ids :: "('f, 'd) operation \<Rightarrow> order_id list" where
  "plain_ids (SubmitOrder order) = [o_id order]"
| "plain_ids (SubmitAtomicOrder entry stop_loss take_profit) = [o_id entry]"
| "plain_ids _ = []"

definition family :: "('f, 'd) operation list \<Rightarrow> (order_id \<times> order_id) list" where
  "family ops = concat (map child_parents ops)"

definition submitted :: "('f, 'd) operation list \<Rightarrow> order_id list" where
  "submitted ops = concat (map plain_ids ops)"

text \<open>
  Child orders are introduced only by \<^verbatim>\<open>submit_atomic_order\<close>: every child identifier is the
  child of one atomic order, and is not the identifier of an order given to
  \<^verbatim>\<open>submit_order\<close> or of an entry order.
\<close>

definition children_only :: "('f, 'd) operation list \<Rightarrow> bool" where
  "children_only ops \<longleftrightarrow>
     distinct (map fst (family ops))
     \<and> list_all (\<lambda>k. k \<notin> set (submitted ops)) (map fst (family ops))"

text \<open>
  \<open>released s s' k\<close>: \<open>k\<close> is a child of a bracket of \<open>s\<close> that \<open>s'\<close> no longer has and whose
  entry order has been filled.  \<open>grew A s s'\<close>: from \<open>s\<close> to \<open>s'\<close> brackets were only removed,
  events only added, and every working order of \<open>s'\<close> was working in \<open>s\<close>, is in \<open>A\<close>, or
  was released.
\<close>

definition released :: "('e, 'f, 'd) client \<Rightarrow> ('e, 'f, 'd) client \<Rightarrow> order_id \<Rightarrow> bool" where
  "released s s' k \<longleftrightarrow>
     (\<exists>p cs. (p, cs) \<in> set (atomic_child_orders s) \<and> k \<in> o_id ` set cs
        \<and> p \<notin> bracket_ids s' \<and> p \<in> set (filled_ids s'))"

definition grew :: "order_id set \<Rightarrow> ('e, 'f, 'd) client \<Rightarrow> ('e, 'f, 'd) client \<Rightarrow> bool" where
  "grew A s s' \<longleftrightarrow>
     set (atomic_child_orders s') \<subseteq> set (atomic_child_orders s)
     \<and> (\<exists>evs. events s' = events s @ evs)
     \<and> (\<forall>k\<in>working_ids s'. k \<in> working_ids s \<or> k \<in> A \<or> released s s' k)"

text \<open>
  The invariant of a run, with the operations \<open>past\<close> behind it: the latent child orders
  come from atomic submissions of the run, a child that is working has an entry order that
  has been filled, and the working orders are orders of the run.
\<close>

definition confined :: "('f, 'd) operation list \<Rightarrow> ('e, 'f, 'd) client \<Rightarrow> bool" where
  "confined past s \<longleftrightarrow>
     (\<forall>p cs c. (p, cs) \<in> set (atomic_child_orders s) \<and> c \<in> set cs
        \<longrightarrow> (o_id c, p) \<in> set (family past))
     \<and> (\<forall>k p. (k, p) \<in> set (family past) \<and> k \<in> working_ids s \<longrightarrow> p \<in> set (filled_ids s))
     \<and> working_ids s \<subseteq> fst ` set (family past) \<union> set (submitted past)"

section \<open>A concrete set of collaborators\<close>

text \<open>
  Collaborators for running the model on concrete inputs.  The execution engine is the list
  of the events it has handled, and the state of an order is read off that list.  Doubles
  are integers with exact arithmetic.  The fill model is a flag: whether orders slip; it
  never grants a marginal fill.  Days have 86400 seconds and the rollover time of a day is
  its 75600th second.
\<close>

fun demo_order_state :: "order_id \<Rightarrow> event list \<Rightarrow> order_state \<Rightarrow> order_state" where
  "demo_order_state i [] st = st"
| "demo_order_state i (ev # evs) st =
    demo_order_state i evs
      (case ev of
         OrderSubmitted j \<Rightarrow> if j = i then SUBMITTED else st
       | OrderAccepted j \<Rightarrow> if j = i then ACCEPTED else st
       | OrderRejected j _ \<Rightarrow> if j = i then REJECTED else st
       | OrderWorking w \<Rightarrow> if o_id w = i then WORKING else st
       | OrderModified j _ _ \<Rightarrow> if j = i then WORKING else st
       | OrderCancelled j \<Rightarrow> if j = i then CANCELLED else st
       | OrderExpired j \<Rightarrow> if j = i then EXPIRED else st
       | OrderFilled f \<Rightarrow> if ev_order_id f = i then FILLED else st
       | _ \<Rightarrow> st)"

definition demo_position :: "int position" where
  "demo_position =
    \<lparr>p_symbol = ''EURUSD'', p_market_position = LONG, p_quantity = 100,
     p_average_open_price = 11000, p_entry_direction = BUY\<rparr>"

definition demo :: "(event list, bool, int) collab" where
  "demo =
    \<lparr>handle_event = (\<lambda>ev e. e @ [ev]),
     get_order = (\<lambda>e i. Some \<lparr>o_id = i, o_symbol = ''EURUSD'', o_side = SELL, o_type = STOP,
                               o_quantity = 100, o_price = 0, o_expire_time = None\<rparr>),
     get_position_for_order = (\<lambda>e i. if i = ''O-close'' then Some demo_position else None),
     get_positions_open = (\<lambda>e. [demo_position]),
     order_state_of = (\<lambda>e order. demo_order_state (o_id order) e INITIALIZED),
     order_is_completed = (\<lambda>e order.
        demo_order_state (o_id order) e INITIALIZED \<in> {FILLED, CANCELLED, REJECTED, EXPIRED}),
     account_cash_balance = (\<lambda>e. 1000000),
     is_slipped = (\<lambda>f. (f, f)),
     is_stop_filled = (\<lambda>f. (False, f)),
     is_limit_filled = (\<lambda>f. (False, f)),
     get_rate = (\<lambda>from_currency to_currency pt bid_rates ask_rates. 1),
     commission_calculate = (\<lambda>sym q p rate cur. 2),
     calc_overnight_rate = (\<lambda>sym t. 1),
     day_of = (\<lambda>t. t div 86400 + 1),
     rollover_time_of = (\<lambda>t. (t div 86400) * 86400 + 75600),
     isoweekday = (\<lambda>t. (t div 86400 + 3) mod 7 + 1),
     fadd = (+), fsub = (-), fmul = (*), fdiv = (div), feq = (=),
     f_zero = 0, f_two = 2, f_three = 3,
     price_as_double = (\<lambda>p. p),
     quantity_as_double = (\<lambda>q. q),
     Money = (\<lambda>d. d)\<rparr>"

definition demo_instruments :: "symbol \<rightharpoonup> instrument" where
  "demo_instruments =
    [''EURUSD'' \<mapsto>
       \<lparr>i_symbol = ''EURUSD'', i_quote_currency = ''USD'', i_security_type = FOREX,
        i_tick_size = 1, i_min_trade_size = 1, i_max_trade_size = 1000,
        i_min_stop_distance = 5, i_min_limit_distance = 5\<rparr>]"

definition demo_config :: "bool \<Rightarrow> backtest_config" where
  "demo_config frozen =
    \<lparr>cfg_frozen_account = frozen, cfg_starting_capital = 1000000,
     cfg_account_currency = ''USD''\<rparr>"

definition demo_init :: "bool \<Rightarrow> (event list, bool, int) client" where
  "demo_init frozen = init demo (demo_config frozen) [] True False demo_instruments"

definition demo_tick :: "price \<Rightarrow> price \<Rightarrow> datetime \<Rightarrow> tick" where
  "demo_tick b a t = \<lparr>tick_symbol = ''EURUSD'', tick_bid = b, tick_ask = a, tick_timestamp = t\<rparr>"

definition demo_order :: "order_id \<Rightarrow> order_side \<Rightarrow> order_type \<Rightarrow> price \<Rightarrow> order" where
  "demo_order i side type p =
    \<lparr>o_id = i, o_symbol = ''EURUSD'', o_side = side, o_type = type, o_quantity = 100,
     o_price = p, o_expire_time = None\<rparr>"

definition demo_after ::
  "bool \<Rightarrow> (bool, int) operation list \<Rightarrow> (event list, bool, int) client" where
  "demo_after frozen ops =
    (case run demo 5 ops (demo_init frozen) of Inr s \<Rightarrow> s | Inl _ \<Rightarrow> demo_init frozen)"

definition emitted_by ::
  "('e, 'f, 'd) client \<Rightarrow> error + ('e, 'f, 'd) client \<Rightarrow> error + event list" where
  "emitted_by s r =
    (case r of Inl e \<Rightarrow> Inl e | Inr s' \<Rightarrow> Inr (drop (length (events s)) (events s')))"

definition demo_stop_working :: "(event list, bool, int) client" where
  "demo_stop_working =
    demo_after False [ProcessTick (demo_tick 10998 11002 100),
                      SubmitOrder (demo_order ''O-1'' BUY STOP 11020)]"

text \<open>
  Two runs with two atomic orders each, entries resting as BUY LIMIT orders: in the first
  the second atomic order uses the stop-loss identifier of the first again, in the second
  all identifiers are different.
\<close>

definition demo_entry :: "order_id \<Rightarrow> order" where
  "demo_entry i = demo_order i BUY LIMIT 10900"

definition demo_reuse_ops :: "(bool, int) operation list" where
  "demo_reuse_ops =
    [ProcessTick (demo_tick 10998 11002 100),
     SubmitAtomicOrder (demo_entry ''E-1'') (demo_order ''SL-1'' SELL STOP 10800)
       (Some (demo_order ''TP-1'' SELL LIMIT 11100)),
     SubmitAtomicOrder (demo_entry ''E-2'') (demo_order ''SL-1'' SELL STOP 10800)
       (Some (demo_order ''TP-2'' SELL LIMIT 11100))]"

definition demo_bracket_ops :: "(bool, int) operation list" where
  "demo_bracket_ops =
    [ProcessTick (demo_tick 10998 11002 100),
     SubmitAtomicOrder (demo_entry ''E-1'') (demo_order ''SL-1'' SELL STOP 10800)
       (Some (demo_order ''TP-1'' SELL LIMIT 11100)),
     SubmitAtomicOrder (demo_entry ''E-2'') (demo_order ''SL-2'' SELL STOP 10800)
       (Some (demo_order ''TP-2'' SELL LIMIT 11100))]"

text \<open>
  An atomic order whose entry is a MARKET order, filled when it is submitted; and the state
  in which the entry of an atomic order rests as a BUY LIMIT order with its two child orders
  latent.
\<close>

definition demo_market_bracket :: "(bool, int) operation list" where
  "demo_market_bracket =
    [ProcessTick (demo_tick 10998 11002 100),
     SubmitAtomicOrder (demo_order ''E-1'' BUY MARKET 0) (demo_order ''SL-1'' SELL STOP 10800)
       (Some (demo_order ''TP-1'' SELL LIMIT 11100))]"

definition demo_resting_bracket :: "(event list, bool, int) client" where
  "demo_resting_bracket =
    demo_after False
      [ProcessTick (demo_tick 10998 11002 100),
       SubmitAtomicOrder (demo_order ''E-1'' BUY LIMIT 10900)
         (demo_order ''SL-1'' SELL STOP 10800) (Some (demo_order ''TP-1'' SELL LIMIT 11100))]"

lemma bindE_Inr_iff: "bindE m f = Inr y \<longleftrightarrow> (\<exists>x. m = Inr x \<and> f x = Inr y)"
  by (cases m) (auto simp: bindE_def)

lemma bindE_simps [simp]: "bindE (Inl e) f = Inl e" "bindE (Inr x) f = f x"
  by (simp_all add: bindE_def)

lemma process_order_unfold:
  "process_order C n order s =
    (case validate_order C order s of
       Inl e \<Rightarrow> Inl e
     | Inr (Finished s1) \<Rightarrow> Inr s1
     | Inr (ToFill p s3) \<Rightarrow> fill_order C n order p s3)"
  by (simp add: validate_order_def market_fill_def bindE_def Let_def
        split: option.split sum.split prod.split)

lemma fill_order_unfold:
  "fill_order C (Suc n) order fill_price s =
    (case announce_fill C order fill_price s of
       Inl e \<Rightarrow> Inl e
     | Inr s2 \<Rightarrow>
        (case map_of (atomic_child_orders s2) (o_id order) of
           None \<Rightarrow> Inr s2
         | Some children \<Rightarrow>
            (case work_child_orders C n children s2 of
               Inl e \<Rightarrow> Inl e
             | Inr s3 \<Rightarrow>
                (case map_of (atomic_child_orders s3) (o_id order) of
                   None \<Rightarrow> Inl KeyError
                 | Some _ \<Rightarrow>
                     Inr (s3\<lparr>atomic_child_orders :=
                             AList.delete (o_id order) (atomic_child_orders s3)\<rparr>)))))"
  by (simp add: announce_fill_def bindE_def Let_def split: option.split sum.split)

subsection \<open>The relation \<open>steady\<close>\<close>

lemma steady_refl [simp]: "steady s s"
  by (simp add: steady_def)

lemma steady_trans: "steady s s1 \<Longrightarrow> steady s1 s2 \<Longrightarrow> steady s s2"
  unfolding steady_def by (elim conjE exE) (simp)

lemma untouched_refl [simp]: "untouched s s"
  by (simp add: untouched_def)

lemma untouched_steady:
  "untouched s s' \<Longrightarrow> events s' = events s @ evs \<Longrightarrow> steady s s'"
  by (simp add: untouched_def steady_def ledger_base_def booked_def)

lemma untouched_handle_event [simp]: "untouched s (exec_engine_handle_event C ev s)"
  by (simp add: untouched_def exec_engine_handle_event_def)

lemma events_handle_event [simp]:
  "events (exec_engine_handle_event C ev s) = events s @ [ev]"
  by (simp add: exec_engine_handle_event_def)

lemma steady_handle_event [simp]: "steady s (exec_engine_handle_event C ev s)"
  by (rule untouched_steady[where evs = "[ev]"]) simp_all

lemma oco_symmetric_delete_pair:
  assumes sym: "oco_symmetric m" and ab: "m a = Some b"
  shows "oco_symmetric (m(a := None, b := None))"
proof -
  from sym ab have ba: "m b = Some a" unfolding oco_symmetric_def by blast
  show ?thesis
    unfolding oco_symmetric_def
  proof (intro allI impI)
    fix x y
    assume h: "(m(a := None, b := None)) x = Some y"
    then have x: "x \<noteq> a" "x \<noteq> b" "m x = Some y" by (auto split: if_splits)
    with sym have yx: "m y = Some x" "x \<noteq> y" unfolding oco_symmetric_def by blast+
    from yx(1) ab x(2) have "y \<noteq> a" by auto
    moreover from yx(1) ba x(1) have "y \<noteq> b" by auto
    ultimately show "(m(a := None, b := None)) y = Some x \<and> x \<noteq> y" using yx by simp
  qed
qed

subsection \<open>Effects of the event handlers\<close>

lemma reject_latent_effect:
  "reject_latent_child_orders C oo k cs s = Inr s' \<Longrightarrow>
     untouched s s' \<and> (\<exists>evs. events s' = events s @ evs \<and> (\<forall>ev\<in>set evs. \<not> is_fill ev))"
proof (induction cs arbitrary: s)
  case Nil
  then show ?case by simp
next
  case (Cons c cs)
  from Cons.prems obtain o' where oo: "oo = Some o'"
    by (cases oo) auto
  let ?s1 = "if order_equals o' c then reject_oco_order C c k s else s"
  from Cons.prems oo have "reject_latent_child_orders C oo k cs ?s1 = Inr s'" by simp
  from Cons.IH[OF this] obtain evs where
    *: "untouched ?s1 s'" "events s' = events ?s1 @ evs" "\<forall>ev\<in>set evs. \<not> is_fill ev"
    by blast
  have "events ?s1 = events s @ (if order_equals o' c
          then [OrderRejected (o_id c) (OcoRejectedFrom k)] else [])"
    by (simp add: reject_oco_order_def)
  with *(2,3) have "\<exists>evs. events s' = events s @ evs \<and> (\<forall>ev\<in>set evs. \<not> is_fill ev)"
    by (cases "order_equals o' c") (auto simp: is_fill_def)
  moreover have "untouched s ?s1" by (simp add: reject_oco_order_def)
  with *(1) have "untouched s s'" by (simp add: untouched_def)
  ultimately show ?case by simp
qed

lemma check_oco_order_effect:
  assumes "check_oco_order C k s = Inr s'"
  shows "steady s s' \<and> atomic_child_orders s' = atomic_child_orders s
     \<and> fst ` set (working_orders s') \<subseteq> fst ` set (working_orders s)
     \<and> (\<exists>evs. events s' = events s @ evs \<and> (\<forall>ev\<in>set evs. \<not> is_fill ev))"
proof (cases "oco_orders s k")
  case None
  with assms have "s' = s" by (simp add: check_oco_order_def)
  then show ?thesis by simp
next
  case (Some b)
  let ?s2 = "s\<lparr>oco_orders := (oco_orders s)(k := None, b := None)\<rparr>"
  from assms Some obtain s3 where
    lat: "reject_latent_child_orders C (get_order C (exec_engine s) b) k
            (concat (map snd (atomic_child_orders s))) ?s2 = Inr s3"
    and fin: "s' = (case map_of (working_orders s3) b of
                 None \<Rightarrow> s3
               | Some w \<Rightarrow> (cancel_oco_order C w k s3)\<lparr>working_orders :=
                     AList.delete b (working_orders (cancel_oco_order C w k s3))\<rparr>)"
    by (auto simp: check_oco_order_def Let_def bindE_Inr_iff split: option.splits)
  from reject_latent_effect[OF lat] obtain evs where
    u: "untouched ?s2 s3" and ev: "events s3 = events s @ evs" "\<forall>ev\<in>set evs. \<not> is_fill ev"
    by auto
  have sym: "oco_symmetric (oco_orders s) \<longrightarrow> oco_symmetric (oco_orders s3)"
    using Some oco_symmetric_delete_pair[of "oco_orders s" k b] u by (simp add: untouched_def)
  have st3: "steady s s3"
    using u ev(1) sym by (simp add: untouched_def steady_def ledger_base_def booked_def)
  have b3: "atomic_child_orders s3 = atomic_child_orders s" "working_orders s3 = working_orders s"
    using u by (simp_all add: untouched_def)
  show ?thesis
  proof (cases "map_of (working_orders s3) b")
    case None
    with fin have "s' = s3" by simp
    with st3 b3 ev show ?thesis by auto
  next
    case (Some w)
    let ?s4 = "cancel_oco_order C w k s3"
    from Some fin have s': "s' = ?s4\<lparr>working_orders := AList.delete b (working_orders ?s4)\<rparr>"
      by simp
    have "steady s3 s'"
      by (simp add: s' cancel_oco_order_def exec_engine_handle_event_def steady_def
            ledger_base_def booked_def)
    with st3 have 1: "steady s s'" by (blast intro: steady_trans)
    have 2: "atomic_child_orders s' = atomic_child_orders s"
      "working_orders s' = AList.delete b (working_orders s)"
      using b3 by (simp_all add: s' cancel_oco_order_def exec_engine_handle_event_def)
    have 3: "events s' = events s @ (evs @ [OrderCancelled (o_id w)])"
      using ev(1) by (simp add: s' cancel_oco_order_def)
    have 4: "\<forall>ev\<in>set (evs @ [OrderCancelled (o_id w)]). \<not> is_fill ev"
      using ev(2) by (simp add: is_fill_def)
    have 5: "fst ` set (working_orders s') \<subseteq> fst ` set (working_orders s)"
      unfolding 2 by (rule dom_delete_subset)
    from 3 4 have "\<exists>evs. events s' = events s @ evs \<and> (\<forall>ev\<in>set evs. \<not> is_fill ev)" by blast
    with 1 2 5 show ?thesis by simp
  qed
qed

lemma clean_up_child_orders_eq:
  "clean_up_child_orders k s = s\<lparr>atomic_child_orders := AList.delete k (atomic_child_orders s)\<rparr>"
proof (cases "map_of (atomic_child_orders s) k")
  case None
  then have "k \<notin> fst ` set (atomic_child_orders s)" by (simp add: map_of_eq_None_iff)
  then have "AList.delete k (atomic_child_orders s) = atomic_child_orders s" by simp
  with None show ?thesis by (simp add: clean_up_child_orders_def)
next
  case (Some a)
  then show ?thesis by (simp add: clean_up_child_orders_def)
qed

lemma steady_brackets [simp]: "steady s (s\<lparr>atomic_child_orders := b\<rparr>)"
  by (simp add: steady_def ledger_base_def booked_def)

lemma steady_working [simp]: "steady s (s\<lparr>working_orders := w\<rparr>)"
  by (simp add: steady_def ledger_base_def booked_def)

lemma steady_fill_model [simp]: "steady s (s\<lparr>fill_model := fm\<rparr>)"
  by (simp add: steady_def ledger_base_def booked_def)

lemma reject_order_effect:
  assumes "reject_order C order reason s = Inr s'"
  shows "steady s s'
     \<and> atomic_child_orders s' = AList.delete (o_id order) (atomic_child_orders s)
     \<and> fst ` set (working_orders s') \<subseteq> fst ` set (working_orders s)
     \<and> (\<exists>evs. events s' = events s @ OrderRejected (o_id order) reason # evs
               \<and> (\<forall>ev\<in>set evs. \<not> is_fill ev))"
proof -
  let ?s0 = "exec_engine_handle_event C (OrderRejected (o_id order) reason) s"
  from assms obtain s1 where c: "check_oco_order C (o_id order) ?s0 = Inr s1"
    and s': "s' = clean_up_child_orders (o_id order) s1"
    by (auto simp: reject_order_def bindE_Inr_iff)
  from check_oco_order_effect[OF c] obtain evs where
    1: "steady ?s0 s1" "atomic_child_orders s1 = atomic_child_orders ?s0"
       "fst ` set (working_orders s1) \<subseteq> fst ` set (working_orders ?s0)"
       "events s1 = events ?s0 @ evs" "\<forall>ev\<in>set evs. \<not> is_fill ev"
    by blast
  have "steady s ?s0" by simp
  then have "steady s s1" using 1(1) by (rule steady_trans)
  moreover have "steady s1 s'" by (simp add: s' clean_up_child_orders_eq)
  ultimately have "steady s s'" by (rule steady_trans)
  moreover have "atomic_child_orders s' = AList.delete (o_id order) (atomic_child_orders s)"
    using 1(2) by (simp add: s' clean_up_child_orders_eq exec_engine_handle_event_def)
  moreover have "fst ` set (working_orders s') \<subseteq> fst ` set (working_orders s)"
    using 1(3) by (simp add: s' clean_up_child_orders_eq exec_engine_handle_event_def)
  moreover have "events s' = events s @ OrderRejected (o_id order) reason # evs"
    using 1(4) by (simp add: s' clean_up_child_orders_eq)
  ultimately show ?thesis using 1(5) by blast
qed

lemma expire_order_effect:
  assumes "expire_order C order s = Inr s'"
  shows "steady s s'
     \<and> atomic_child_orders s' = AList.delete (o_id order) (atomic_child_orders s)
     \<and> fst ` set (working_orders s') \<subseteq> fst ` set (working_orders s)
     \<and> (\<exists>evs. events s' = events s @ OrderExpired (o_id order) # evs
               \<and> (\<forall>ev\<in>set evs. \<not> is_fill ev))"
proof -
  let ?s1 = "exec_engine_handle_event C (OrderExpired (o_id order)) s"
  from assms obtain s3 where
    mid: "(case map_of (atomic_child_orders ?s1) (o_id order) of
             Some children \<Rightarrow>
               (case children of
                  [] \<Rightarrow> Inl IndexError
                | first_child # _ \<Rightarrow>
                    (case oco_orders ?s1 (o_id first_child) of
                       None \<Rightarrow> Inr ?s1
                     | Some other_oco_order_id \<Rightarrow>
                         (let s2 = ?s1\<lparr>oco_orders := (oco_orders ?s1)(o_id first_child := None)\<rparr>
                          in case oco_orders s2 other_oco_order_id of
                               None \<Rightarrow> Inl KeyError
                             | Some _ \<Rightarrow>
                                 Inr (s2\<lparr>oco_orders :=
                                          (oco_orders s2)(other_oco_order_id := None)\<rparr>))))
           | None \<Rightarrow> check_oco_order C (o_id order) ?s1) = Inr s3"
    and s': "s' = clean_up_child_orders (o_id order) s3"
    by (auto simp: expire_order_def Let_def bindE_Inr_iff)
  have "steady ?s1 s3 \<and> atomic_child_orders s3 = atomic_child_orders ?s1
     \<and> fst ` set (working_orders s3) \<subseteq> fst ` set (working_orders ?s1)
     \<and> (\<exists>evs. events s3 = events ?s1 @ evs \<and> (\<forall>ev\<in>set evs. \<not> is_fill ev))"
  proof (cases "map_of (atomic_child_orders ?s1) (o_id order)")
    case None
    with mid have "check_oco_order C (o_id order) ?s1 = Inr s3" by simp
    then show ?thesis by (rule check_oco_order_effect)
  next
    case (Some children)
    with mid obtain first_child rest where ch: "children = first_child # rest"
      by (cases children) auto
    show ?thesis
    proof (cases "oco_orders ?s1 (o_id first_child)")
      case None
      with mid Some ch have "s3 = ?s1" by simp
      then show ?thesis by simp
    next
      case (Some b)
      with mid \<open>map_of (atomic_child_orders ?s1) (o_id order) = Some children\<close> ch
      have s3: "s3 = ?s1\<lparr>oco_orders := (oco_orders ?s1)(o_id first_child := None, b := None)\<rparr>"
        by (auto simp: Let_def split: option.splits if_splits)
      have "oco_symmetric (oco_orders ?s1) \<longrightarrow> oco_symmetric (oco_orders s3)"
        using Some oco_symmetric_delete_pair[of "oco_orders ?s1" "o_id first_child" b]
        by (simp add: s3)
      then have "steady ?s1 s3"
        by (simp add: s3 steady_def ledger_base_def booked_def)
      moreover have "events s3 = events ?s1 @ []" by (simp add: s3)
      ultimately show ?thesis by (auto simp: s3)
    qed
  qed
  then obtain evs where
    1: "steady ?s1 s3" "atomic_child_orders s3 = atomic_child_orders ?s1"
       "fst ` set (working_orders s3) \<subseteq> fst ` set (working_orders ?s1)"
       "events s3 = events ?s1 @ evs" "\<forall>ev\<in>set evs. \<not> is_fill ev"
    by blast
  have "steady s ?s1" by simp
  then have "steady s s3" using 1(1) by (rule steady_trans)
  moreover have "steady s3 s'" by (simp add: s' clean_up_child_orders_eq)
  ultimately have "steady s s'" by (rule steady_trans)
  moreover have "atomic_child_orders s' = AList.delete (o_id order) (atomic_child_orders s)"
    using 1(2) by (simp add: s' clean_up_child_orders_eq exec_engine_handle_event_def)
  moreover have "fst ` set (working_orders s') \<subseteq> fst ` set (working_orders s)"
    using 1(3) by (simp add: s' clean_up_child_orders_eq exec_engine_handle_event_def)
  moreover have "events s' = events s @ OrderExpired (o_id order) # evs"
    using 1(4) by (simp add: s' clean_up_child_orders_eq)
  ultimately show ?thesis using 1(5) by blast
qed

lemma check_valid_price_eq:
  "check_valid_price C order cm rej s =
    (case price_violation s order cm of
       Inl e \<Rightarrow> Inl e
     | Inr None \<Rightarrow> Inr (True, s)
     | Inr (Some r) \<Rightarrow>
         if rej then bindE (reject_order C order r s) (\<lambda>s1. Inr (False, s1))
         else Inr (False, s))"
  by (simp add: check_valid_price_def price_violation_def split: option.split)

lemma price_violation_reason:
  "price_violation s order cm = Inr (Some r) \<Longrightarrow> price_reason r"
  by (auto simp: price_violation_def price_reason_def split: if_splits option.splits)

lemma check_valid_price_cases:
  assumes "check_valid_price C order cm rej s = Inr (b, s')"
  shows "(b \<and> s' = s) \<or> (\<not> b \<and> \<not> rej \<and> s' = s)
     \<or> (\<not> b \<and> rej \<and> (\<exists>r. price_reason r \<and> reject_order C order r s = Inr s'))"
proof (cases "price_violation s order cm")
  case (Inl e)
  with assms show ?thesis by (simp add: check_valid_price_eq)
next
  case (Inr v)
  show ?thesis
  proof (cases v)
    case None
    with Inr assms show ?thesis by (simp add: check_valid_price_eq)
  next
    case (Some r)
    with Inr have "price_reason r" by (simp add: price_violation_reason)
    with Some Inr assms show ?thesis
      by (cases rej) (auto simp: check_valid_price_eq bindE_Inr_iff)
  qed
qed

lemma check_valid_price_effect:
  assumes "check_valid_price C order cm rej s = Inr (b, s')"
  shows "steady s s'
     \<and> (atomic_child_orders s' = atomic_child_orders s
        \<or> atomic_child_orders s' = AList.delete (o_id order) (atomic_child_orders s))
     \<and> fst ` set (working_orders s') \<subseteq> fst ` set (working_orders s)
     \<and> (\<exists>evs. events s' = events s @ evs \<and> (\<forall>ev\<in>set evs. \<not> is_fill ev))"
proof -
  from check_valid_price_cases[OF assms]
  consider "s' = s" | r where "reject_order C order r s = Inr s'" by blast
  then show ?thesis
  proof cases
    case 1
    then show ?thesis by simp
  next
    case 2
    from reject_order_effect[OF 2] obtain evs where
      *: "steady s s'" "atomic_child_orders s' = AList.delete (o_id order) (atomic_child_orders s)"
         "fst ` set (working_orders s') \<subseteq> fst ` set (working_orders s)"
         "events s' = events s @ OrderRejected (o_id order) r # evs"
         "\<forall>ev\<in>set evs. \<not> is_fill ev"
      by blast
    from *(5) have "\<forall>ev\<in>set (OrderRejected (o_id order) r # evs). \<not> is_fill ev"
      by (simp add: is_fill_def)
    with *(4) have "\<exists>evs. events s' = events s @ evs \<and> (\<forall>ev\<in>set evs. \<not> is_fill ev)"
      by blast
    with *(1-3) show ?thesis by simp
  qed
qed

lemma adjust_account_eq:
  "adjust_account C event position s =
    (case instruments s (ev_symbol event) of
       None \<Rightarrow> Inl KeyError
     | Some instrument \<Rightarrow>
         (let exchange_rate = get_rate C (i_quote_currency instrument) (account_currency s)
                (if ev_order_side event = SELL then BID else ASK)
                (build_current_bid_rates C s) (build_current_ask_rates C s)
          in bindE (calculate_pnl C (p_market_position position) (p_average_open_price position)
                      (price_as_double C (ev_average_price event)) (ev_filled_quantity event)
                      exchange_rate)
               (\<lambda>pnl0. Inr (book_fill C pnl0
                  (commission_calculate C (ev_symbol event) (ev_filled_quantity event)
                     (ev_average_price event) exchange_rate (account_currency s)) s))))"
  by (cases "frozen_account s")
     (simp_all add: adjust_account_def book_fill_def Let_def split: option.split)

lemma book_fill_effect:
  "steady s (book_fill C p c s) \<and> working_orders (book_fill C p c s) = working_orders s
     \<and> atomic_child_orders (book_fill C p c s) = atomic_child_orders s
     \<and> oco_orders (book_fill C p c s) = oco_orders s
     \<and> events (book_fill C p c s) = events s @
          (if frozen_account s then []
           else [AccountStateEvent (account_capital s + (p - c)) (account_cash_start_day s)
                   (account_cash_activity_day s + (p - c))])"
  by (simp add: book_fill_def Let_def steady_def ledger_base_def booked_def
        exec_engine_handle_event_def)

lemma adjust_account_effect:
  assumes "adjust_account C event position s = Inr s'"
  shows "steady s s' \<and> working_orders s' = working_orders s
     \<and> atomic_child_orders s' = atomic_child_orders s \<and> oco_orders s' = oco_orders s
     \<and> (\<exists>evs. events s' = events s @ evs \<and> (\<forall>ev\<in>set evs. \<not> is_fill ev))"
proof -
  from assms obtain p c where s': "s' = book_fill C p c s"
    by (auto simp: adjust_account_eq Let_def bindE_Inr_iff split: option.splits)
  have "\<forall>ev\<in>set (if frozen_account s then []
           else [AccountStateEvent (account_capital s + (p - c)) (account_cash_start_day s)
                   (account_cash_activity_day s + (p - c))]). \<not> is_fill ev"
    by (simp add: is_fill_def)
  with book_fill_effect[of s C p c] show ?thesis unfolding s' by blast
qed

lemma apply_rollover_interest_eq:
  "apply_rollover_interest C timestamp iso_week_day s =
    (if \<not> exec_db_registered s then Inr s
     else bindE (rollover_positions C timestamp s (get_positions_open C (exec_engine s))
                   (Map.empty, f_zero C))
            (\<lambda>acc. Inr (book_rollover C (Money C (weekday_total C iso_week_day (snd acc))) s)))"
  by (cases "frozen_account s")
     (simp_all add: apply_rollover_interest_def book_rollover_def weekday_total_def Let_def)

lemma book_rollover_effect:
  "steady s (book_rollover C r s) \<and> working_orders (book_rollover C r s) = working_orders s
     \<and> atomic_child_orders (book_rollover C r s) = atomic_child_orders s
     \<and> oco_orders (book_rollover C r s) = oco_orders s
     \<and> events (book_rollover C r s) = events s @
          (if frozen_account s then []
           else [AccountStateEvent (account_capital s + r) (account_cash_start_day s)
                   (account_cash_activity_day s + r)])"
  by (simp add: book_rollover_def Let_def steady_def ledger_base_def booked_def
        exec_engine_handle_event_def)

lemma apply_rollover_interest_effect:
  assumes "apply_rollover_interest C timestamp iso_week_day s = Inr s'"
  shows "steady s s' \<and> working_orders s' = working_orders s
     \<and> atomic_child_orders s' = atomic_child_orders s \<and> oco_orders s' = oco_orders s
     \<and> (\<exists>evs. events s' = events s @ evs \<and> (\<forall>ev\<in>set evs. \<not> is_fill ev))"
proof (cases "exec_db_registered s")
  case False
  with assms have "s' = s" by (simp add: apply_rollover_interest_def)
  then show ?thesis by simp
next
  case True
  with assms obtain r where s': "s' = book_rollover C r s"
    by (auto simp: apply_rollover_interest_eq bindE_Inr_iff)
  have "\<forall>ev\<in>set (if frozen_account s then []
           else [AccountStateEvent (account_capital s + r) (account_cash_start_day s)
                   (account_cash_activity_day s + r)]). \<not> is_fill ev"
    by (simp add: is_fill_def)
  with book_rollover_effect[of s C r] show ?thesis unfolding s' by blast
qed

declare process_order.simps [simp del] fill_order.simps(2) [simp del]

subsection \<open>Effects of validating and announcing\<close>

lemma accept_and_work_effect:
  "steady s (accept_and_work C order s)
   \<and> atomic_child_orders (accept_and_work C order s) = atomic_child_orders s
   \<and> working_orders (accept_and_work C order s)
       = AList.update (o_id order) order (working_orders s)
   \<and> oco_orders (accept_and_work C order s) = oco_orders s
   \<and> events (accept_and_work C order s)
       = events s @ [OrderAccepted (o_id order), OrderWorking order]"
  by (simp add: accept_and_work_def accept_order_def Let_def exec_engine_handle_event_def
        steady_def ledger_base_def booked_def)

lemma market_fill_effect:
  assumes "market_fill C order cm s1 = Inr out"
  shows "\<exists>p s3. out = ToFill p s3 \<and> untouched s1 s3
           \<and> events s3 = events s1 @ [OrderAccepted (o_id order)]
           \<and> (\<exists>slip. (slip = 0 \<or> slippages s1 (o_symbol order) = Some slip)
                 \<and> p = (if o_side order = BUY then tick_ask cm + slip else tick_bid cm - slip))"
proof -
  obtain slipped fm where sl: "is_slipped C (fill_model (accept_order C order s1)) = (slipped, fm)"
    by (cases "is_slipped C (fill_model (accept_order C order s1))") auto
  let ?s3 = "(accept_order C order s1)\<lparr>fill_model := fm\<rparr>"
  have u: "untouched s1 ?s3" "events ?s3 = events s1 @ [OrderAccepted (o_id order)]"
    "slippages ?s3 = slippages s1"
    by (simp_all add: untouched_def accept_order_def exec_engine_handle_event_def)
  show ?thesis
  proof (cases slipped)
    case False
    with assms sl have "out = ToFill (if o_side order = BUY then tick_ask cm else tick_bid cm) ?s3"
      by (simp add: market_fill_def Let_def)
    with u show ?thesis by (intro exI[of _ "if o_side order = BUY then tick_ask cm else tick_bid cm"]
          exI[of _ ?s3] conjI exI[of _ 0]) auto
  next
    case True
    with assms sl u(3) obtain slip where
      "slippages s1 (o_symbol order) = Some slip"
      "out = ToFill (if o_side order = BUY then tick_ask cm + slip else tick_bid cm - slip) ?s3"
      by (cases "slippages s1 (o_symbol order)") (auto simp: market_fill_def Let_def)
    with u show ?thesis by blast
  qed
qed

lemma validate_order_cases:
  assumes "validate_order C order s = Inr out"
  shows "map_of (working_orders s) (o_id order) = None
    \<and> ((\<exists>r s1. size_rejection s order r \<and> reject_order C order r s = Inr s1 \<and> out = Finished s1)
     \<or> (\<exists>cm s1. map_of (market s) (o_symbol order) = Some cm
           \<and> check_valid_price C order cm True s = Inr (False, s1) \<and> out = Finished s1)
     \<or> (\<exists>cm. map_of (market s) (o_symbol order) = Some cm
           \<and> check_valid_price C order cm True s = Inr (True, s)
           \<and> (if o_type order = MARKET then market_fill C order cm s = Inr out
               else out = Finished (accept_and_work C order s))))"
proof -
  from assms have w: "map_of (working_orders s) (o_id order) = None"
    by (cases "map_of (working_orders s) (o_id order)") (simp_all add: validate_order_def)
  from assms w obtain i where i: "instruments s (o_symbol order) = Some i"
    by (cases "instruments s (o_symbol order)") (simp_all add: validate_order_def)
  show ?thesis
  proof (cases "o_quantity order > i_max_trade_size i")
    case True
    with assms w i obtain s1 where
      "reject_order C order (QuantityExceedsMax (o_quantity order) (i_max_trade_size i)) s = Inr s1"
      "out = Finished s1"
      by (auto simp: validate_order_def bindE_Inr_iff)
    moreover have "size_rejection s order
        (QuantityExceedsMax (o_quantity order) (i_max_trade_size i))"
      using i True by (simp add: size_rejection_def)
    ultimately show ?thesis using w by blast
  next
    case nmax: False
    show ?thesis
    proof (cases "o_quantity order < i_min_trade_size i")
      case True
      with assms w i nmax obtain s1 where
        "reject_order C order (QuantityBelowMin (o_quantity order) (i_min_trade_size i)) s = Inr s1"
        "out = Finished s1"
        by (auto simp: validate_order_def bindE_Inr_iff)
      moreover have "size_rejection s order
          (QuantityBelowMin (o_quantity order) (i_min_trade_size i))"
        using i True by (simp add: size_rejection_def)
      ultimately show ?thesis using w by blast
    next
      case nmin: False
      show ?thesis
      proof (cases "map_of (market s) (o_symbol order)")
        case None
        with assms w i nmax nmin obtain s1 where
          "reject_order C order (NoMarket (o_symbol order)) s = Inr s1" "out = Finished s1"
          by (auto simp: validate_order_def bindE_Inr_iff)
        moreover have "size_rejection s order (NoMarket (o_symbol order))"
          using i None by (simp add: size_rejection_def)
        ultimately show ?thesis using w by blast
      next
        case (Some cm)
        with assms w i nmax nmin obtain valid s1 where
          cvp: "check_valid_price C order cm True s = Inr (valid, s1)"
          and rest: "(if \<not> valid then Inr (Finished s1)
                      else if o_type order = MARKET then market_fill C order cm s1
                      else Inr (Finished (accept_and_work C order s1))) = Inr out"
          by (auto simp: validate_order_def bindE_Inr_iff)
        show ?thesis
        proof (cases valid)
          case False
          with rest have "out = Finished s1" by simp
          with cvp False Some w show ?thesis by auto
        next
          case True
          with check_valid_price_cases[OF cvp] have s1: "s1 = s" by simp
          from rest True s1 have "if o_type order = MARKET then market_fill C order cm s = Inr out
               else out = Finished (accept_and_work C order s)"
            by (auto split: if_splits)
          with cvp True s1 Some w show ?thesis by auto
        qed
      qed
    qed
  qed
qed

lemma validate_order_finished:
  assumes "validate_order C order s = Inr (Finished s1)"
  shows "steady s s1
     \<and> (atomic_child_orders s1 = atomic_child_orders s
        \<or> atomic_child_orders s1 = AList.delete (o_id order) (atomic_child_orders s))
     \<and> fst ` set (working_orders s1) \<subseteq> insert (o_id order) (fst ` set (working_orders s))
     \<and> (\<exists>evs. events s1 = events s @ evs \<and> (\<forall>ev\<in>set evs. \<not> is_fill ev))"
proof -
  from validate_order_cases[OF assms]
  consider (rej) r where "reject_order C order r s = Inr s1"
    | (inv) cm where "check_valid_price C order cm True s = Inr (False, s1)"
    | (work) "s1 = accept_and_work C order s"
    | (mkt) cm where "market_fill C order cm s = Inr (Finished s1)"
    by (auto split: if_splits)
  then show ?thesis
  proof cases
    case rej
    from reject_order_effect[OF rej] obtain evs where
      *: "steady s s1" "atomic_child_orders s1 = AList.delete (o_id order) (atomic_child_orders s)"
         "fst ` set (working_orders s1) \<subseteq> fst ` set (working_orders s)"
         "events s1 = events s @ OrderRejected (o_id order) r # evs"
         "\<forall>ev\<in>set evs. \<not> is_fill ev"
      by blast
    from *(5) have "\<forall>ev\<in>set (OrderRejected (o_id order) r # evs). \<not> is_fill ev"
      by (simp add: is_fill_def)
    with *(4) have "\<exists>evs. events s1 = events s @ evs \<and> (\<forall>ev\<in>set evs. \<not> is_fill ev)" by blast
    with *(1-3) show ?thesis by auto
  next
    case inv
    from check_valid_price_effect[OF inv] show ?thesis by auto
  next
    case work
    have "\<forall>ev\<in>set [OrderAccepted (o_id order), OrderWorking order]. \<not> is_fill ev"
      by (simp add: is_fill_def)
    with accept_and_work_effect[of s C order]
    have "\<exists>evs. events s1 = events s @ evs \<and> (\<forall>ev\<in>set evs. \<not> is_fill ev)"
      unfolding work by blast
    with accept_and_work_effect[of s C order] show ?thesis
      unfolding work by (simp add: dom_update)
  next
    case mkt
    from market_fill_effect[OF mkt] show ?thesis by auto
  qed
qed

lemma validate_order_to_fill:
  assumes "validate_order C order s = Inr (ToFill p s3)"
  shows "o_type order = MARKET \<and> untouched s s3
     \<and> events s3 = events s @ [OrderAccepted (o_id order)]
     \<and> map_of (working_orders s) (o_id order) = None"
proof -
  from validate_order_cases[OF assms] obtain cm where
    "o_type order = MARKET" "market_fill C order cm s = Inr (ToFill p s3)"
    "map_of (working_orders s) (o_id order) = None"
    by (auto split: if_splits)
  with market_fill_effect[OF this(2)] show ?thesis by auto
qed

lemma announce_fill_effect:
  assumes "announce_fill C order p s = Inr s2"
  shows "steady s s2 \<and> atomic_child_orders s2 = atomic_child_orders s
     \<and> fst ` set (working_orders s2) \<subseteq> fst ` set (working_orders s)
     \<and> (\<exists>pre post. events s2 = events s @ pre @
            OrderFilled \<lparr>ev_order_id = o_id order, ev_symbol = o_symbol order,
                         ev_order_side = o_side order, ev_filled_quantity = o_quantity order,
                         ev_average_price = p\<rparr> # post
          \<and> (\<forall>ev\<in>set pre. \<not> is_fill ev) \<and> (\<forall>ev\<in>set post. \<not> is_fill ev))"
proof -
  let ?f = "\<lparr>ev_order_id = o_id order, ev_symbol = o_symbol order,
             ev_order_side = o_side order, ev_filled_quantity = o_quantity order,
             ev_average_price = p\<rparr>"
  from assms obtain i where i: "instruments s (o_symbol order) = Some i"
    by (cases "instruments s (o_symbol order)") (simp_all add: announce_fill_def)
  with assms obtain s1 where
    a: "(case get_position_for_order C (exec_engine s) (o_id order) of
           None \<Rightarrow> Inr s
         | Some position \<Rightarrow>
             if p_entry_direction position \<noteq> o_side order
             then adjust_account C ?f position s else Inr s) = Inr s1"
    and c: "check_oco_order C (o_id order) (exec_engine_handle_event C (OrderFilled ?f) s1) = Inr s2"
    by (auto simp: announce_fill_def Let_def bindE_Inr_iff)
  have "steady s s1 \<and> working_orders s1 = working_orders s
     \<and> atomic_child_orders s1 = atomic_child_orders s
     \<and> (\<exists>evs. events s1 = events s @ evs \<and> (\<forall>ev\<in>set evs. \<not> is_fill ev))"
  proof (cases "get_position_for_order C (exec_engine s) (o_id order)")
    case None
    with a have "s1 = s" by simp
    then show ?thesis by simp
  next
    case (Some position)
    show ?thesis
    proof (cases "p_entry_direction position \<noteq> o_side order")
      case True
      with a Some have "adjust_account C ?f position s = Inr s1" by simp
      from adjust_account_effect[OF this] show ?thesis by blast
    next
      case False
      with a Some have "s1 = s" by simp
      then show ?thesis by simp
    qed
  qed
  then obtain pre where
    1: "steady s s1" "working_orders s1 = working_orders s"
       "atomic_child_orders s1 = atomic_child_orders s"
       "events s1 = events s @ pre" "\<forall>ev\<in>set pre. \<not> is_fill ev"
    by blast
  let ?s1' = "exec_engine_handle_event C (OrderFilled ?f) s1"
  from check_oco_order_effect[OF c] obtain post where
    2: "steady ?s1' s2" "atomic_child_orders s2 = atomic_child_orders ?s1'"
       "fst ` set (working_orders s2) \<subseteq> fst ` set (working_orders ?s1')"
       "events s2 = events ?s1' @ post" "\<forall>ev\<in>set post. \<not> is_fill ev"
    by blast
  have "steady s1 ?s1'" by simp
  with 1(1) have "steady s ?s1'" by (blast intro: steady_trans)
  with 2(1) have "steady s s2" by (blast intro: steady_trans)
  moreover have "atomic_child_orders s2 = atomic_child_orders s"
    using 1(3) 2(2) by (simp add: exec_engine_handle_event_def)
  moreover have "fst ` set (working_orders s2) \<subseteq> fst ` set (working_orders s)"
    using 1(2) 2(3) by (simp add: exec_engine_handle_event_def)
  moreover have "events s2 = events s @ pre @ OrderFilled ?f # post"
    using 1(4) 2(4) by simp
  ultimately show ?thesis using 1(5) 2(5) by blast
qed

subsection \<open>Order processing keeps \<open>steady\<close>\<close>

lemma process_order_steady_step:
  assumes fill: "\<And>order p s s'. fill_order C n order p s = Inr s' \<Longrightarrow> steady s s'"
    and "process_order C n order s = Inr s'"
  shows "steady s s'"
proof (cases "validate_order C order s")
  case (Inl e)
  with assms(2) show ?thesis by (simp add: process_order_unfold)
next
  case (Inr out)
  show ?thesis
  proof (cases out)
    case (Finished s1)
    with Inr assms(2) have "s' = s1" by (simp add: process_order_unfold)
    with validate_order_finished[of C order s s1] Inr Finished show ?thesis by simp
  next
    case (ToFill p s3)
    with Inr assms(2) have "fill_order C n order p s3 = Inr s'"
      by (simp add: process_order_unfold)
    then have "steady s3 s'" by (rule fill)
    moreover from validate_order_to_fill[of C order s p s3] Inr ToFill
    have "steady s s3" by (auto intro: untouched_steady)
    ultimately show ?thesis by (blast intro: steady_trans)
  qed
qed

lemma work_child_orders_steady_step:
  assumes proc: "\<And>order s s'. process_order C n order s = Inr s' \<Longrightarrow> steady s s'"
  shows "work_child_orders C n children s = Inr s' \<Longrightarrow> steady s s'"
proof (induction children arbitrary: s)
  case Nil
  then show ?case by simp
next
  case (Cons c cs)
  show ?case
  proof (cases "order_is_completed C (exec_engine s) c")
    case True
    with Cons.prems have "work_child_orders C n cs s = Inr s'" by simp
    then show ?thesis by (rule Cons.IH)
  next
    case False
    with Cons.prems obtain s1 where 1: "process_order C n c s = Inr s1"
      and 2: "work_child_orders C n cs s1 = Inr s'"
      by (cases "process_order C n c s") auto
    from proc[OF 1] Cons.IH[OF 2] show ?thesis by (rule steady_trans)
  qed
qed

lemma fill_order_steady:
  "fill_order C n order p s = Inr s' \<Longrightarrow> steady s s'"
proof (induction n arbitrary: order p s s')
  case 0
  then show ?case by simp
next
  case (Suc n)
  from Suc.prems obtain s2 where a: "announce_fill C order p s = Inr s2"
    by (cases "announce_fill C order p s") (simp_all add: fill_order_unfold)
  from announce_fill_effect[OF a] have st2: "steady s s2" by blast
  show ?case
  proof (cases "map_of (atomic_child_orders s2) (o_id order)")
    case None
    with Suc.prems a have "s' = s2" by (simp add: fill_order_unfold)
    with st2 show ?thesis by simp
  next
    case (Some children)
    with Suc.prems a obtain s3 where w: "work_child_orders C n children s2 = Inr s3"
      and s': "s' = s3\<lparr>atomic_child_orders := AList.delete (o_id order) (atomic_child_orders s3)\<rparr>"
      by (auto simp: fill_order_unfold split: sum.splits option.splits)
    have "steady s2 s3"
      using w by (rule work_child_orders_steady_step[rotated])
                 (rule process_order_steady_step, rule Suc.IH)
    moreover have "steady s3 s'" by (simp add: s')
    ultimately show ?thesis using st2 by (blast intro: steady_trans)
  qed
qed

lemma process_order_steady:
  "process_order C n order s = Inr s' \<Longrightarrow> steady s s'"
  by (rule process_order_steady_step) (rule fill_order_steady)

lemma work_child_orders_steady:
  "work_child_orders C n children s = Inr s' \<Longrightarrow> steady s s'"
  by (rule work_child_orders_steady_step) (rule process_order_steady)

subsection \<open>Tick processing\<close>

lemma marginal_fill_state:
  "snd (is_marginal_buy_stop_fill C p tick s) = s
     \<or> (\<exists>fm. snd (is_marginal_buy_stop_fill C p tick s) = s\<lparr>fill_model := fm\<rparr>)"
  "snd (is_marginal_buy_limit_fill C p tick s) = s
     \<or> (\<exists>fm. snd (is_marginal_buy_limit_fill C p tick s) = s\<lparr>fill_model := fm\<rparr>)"
  "snd (is_marginal_sell_stop_fill C p tick s) = s
     \<or> (\<exists>fm. snd (is_marginal_sell_stop_fill C p tick s) = s\<lparr>fill_model := fm\<rparr>)"
  "snd (is_marginal_sell_limit_fill C p tick s) = s
     \<or> (\<exists>fm. snd (is_marginal_sell_limit_fill C p tick s) = s\<lparr>fill_model := fm\<rparr>)"
  by (auto simp: is_marginal_buy_stop_fill_def is_marginal_buy_limit_fill_def
        is_marginal_sell_stop_fill_def is_marginal_sell_limit_fill_def split: prod.splits)

lemma match_order_cases:
  assumes "match_order C n tick t order s = Inr s'"
  shows "s' = s
    \<or> (\<exists>s1. (s1 = s \<or> (\<exists>fm. s1 = s\<lparr>fill_model := fm\<rparr>))
          \<and> (check_order_expiry C t order s1 = Inr s'
             \<or> fill_working_add C n order s1 = Inr s'
             \<or> fill_working_subtract C n order s1 = Inr s'))"
proof -
  have m: "\<And>r. (snd r = s \<or> (\<exists>fm. snd r = s\<lparr>fill_model := fm\<rparr>)) \<Longrightarrow>
     (case r of (hit, s1) \<Rightarrow> if hit then fill_working_add C n order s1
                             else check_order_expiry C t order s1) = Inr s' \<Longrightarrow> ?thesis"
    "\<And>r. (snd r = s \<or> (\<exists>fm. snd r = s\<lparr>fill_model := fm\<rparr>)) \<Longrightarrow>
     (case r of (hit, s1) \<Rightarrow> if hit then fill_working_subtract C n order s1
                             else check_order_expiry C t order s1) = Inr s' \<Longrightarrow> ?thesis"
    by (auto split: prod.splits if_splits)
  show ?thesis
  proof (cases "o_symbol order = tick_symbol tick")
    case False
    from this assms have "s' = s" by (simp add: match_order_def)
    then show ?thesis by simp
  next
    case sym: True
    show ?thesis
    proof (cases "order_state_of C (exec_engine s) order = WORKING")
      case False
      from sym this assms have "s' = s" by (simp add: match_order_def)
      then show ?thesis by simp
    next
      case wk: True
      from sym wk assms obtain i where i: "instruments s (o_symbol order) = Some i"
        by (cases "instruments s (o_symbol order)") (simp_all add: match_order_def)
      note ms = marginal_fill_state[of C "o_price order" tick s]
      show ?thesis
      proof (cases "o_side order = BUY")
        case buy: True
        show ?thesis
        proof (cases "o_type order \<in> STOP_ORDER_TYPES")
          case True
          from sym wk i buy this assms
          have "(case (if tick_ask tick \<ge> o_price order then (True, s)
                       else is_marginal_buy_stop_fill C (o_price order) tick s) of
                   (hit, s1) \<Rightarrow> if hit then fill_working_add C n order s1
                                 else check_order_expiry C t order s1) = Inr s'"
            by (simp add: match_order_def)
          then show ?thesis by (rule m(1)[rotated]) (use ms in auto)
        next
          case ns: False
          show ?thesis
          proof (cases "o_type order = LIMIT")
            case True
            from sym wk i buy ns this assms
            have "(case (if tick_ask tick \<le> o_price order then (True, s)
                         else is_marginal_buy_limit_fill C (o_price order) tick s) of
                     (hit, s1) \<Rightarrow> if hit then fill_working_add C n order s1
                                   else check_order_expiry C t order s1) = Inr s'"
              by (simp add: match_order_def)
            then show ?thesis by (rule m(1)[rotated]) (use ms in auto)
          next
            case False
            from sym wk i buy ns this assms
            have "check_order_expiry C t order s = Inr s'" by (simp add: match_order_def)
            then show ?thesis by blast
          qed
        qed
      next
        case sell: False
        show ?thesis
        proof (cases "o_type order \<in> STOP_ORDER_TYPES")
          case True
          from sym wk i sell this assms
          have "(case (if tick_bid tick \<le> o_price order then (True, s)
                       else is_marginal_sell_stop_fill C (o_price order) tick s) of
                   (hit, s1) \<Rightarrow> if hit then fill_working_subtract C n order s1
                                 else check_order_expiry C t order s1) = Inr s'"
            by (simp add: match_order_def)
          then show ?thesis by (rule m(2)[rotated]) (use ms in auto)
        next
          case ns: False
          show ?thesis
          proof (cases "o_type order = LIMIT")
            case True
            from sym wk i sell ns this assms
            have "(case (if tick_bid tick \<ge> o_price order then (True, s)
                         else is_marginal_sell_limit_fill C (o_price order) tick s) of
                     (hit, s1) \<Rightarrow> if hit then fill_working_subtract C n order s1
                                   else check_order_expiry C t order s1) = Inr s'"
              by (simp add: match_order_def)
            then show ?thesis by (rule m(2)[rotated]) (use ms in auto)
          next
            case False
            from sym wk i sell ns this assms
            have "check_order_expiry C t order s = Inr s'" by (simp add: match_order_def)
            then show ?thesis by blast
          qed
        qed
      qed
    qed
  qed
qed

lemma fill_order_first_fill:
  assumes "fill_order C n order p s = Inr s'"
  shows "\<exists>pre rest. events s' = events s @ pre @
            OrderFilled \<lparr>ev_order_id = o_id order, ev_symbol = o_symbol order,
                         ev_order_side = o_side order, ev_filled_quantity = o_quantity order,
                         ev_average_price = p\<rparr> # rest
          \<and> (\<forall>ev\<in>set pre. \<not> is_fill ev)"
proof (cases n)
  case 0
  with assms show ?thesis by simp
next
  case (Suc m)
  let ?f = "\<lparr>ev_order_id = o_id order, ev_symbol = o_symbol order,
             ev_order_side = o_side order, ev_filled_quantity = o_quantity order,
             ev_average_price = p\<rparr>"
  from assms Suc obtain s2 where a: "announce_fill C order p s = Inr s2"
    by (cases "announce_fill C order p s") (simp_all add: fill_order_unfold)
  from announce_fill_effect[OF a] obtain pre post where
    e2: "events s2 = events s @ pre @ OrderFilled ?f # post" "\<forall>ev\<in>set pre. \<not> is_fill ev"
    by blast
  have "\<exists>more. events s' = events s2 @ more"
  proof (cases "map_of (atomic_child_orders s2) (o_id order)")
    case None
    with assms Suc a have "s' = s2" by (simp add: fill_order_unfold)
    then show ?thesis by simp
  next
    case (Some children)
    with assms Suc a obtain s3 where w: "work_child_orders C m children s2 = Inr s3"
      and s': "s' = s3\<lparr>atomic_child_orders := AList.delete (o_id order) (atomic_child_orders s3)\<rparr>"
      by (auto simp: fill_order_unfold split: sum.splits option.splits)
    from work_child_orders_steady[OF w] show ?thesis by (simp add: steady_def s')
  qed
  then obtain more where "events s' = events s2 @ more" ..
  with e2 have "events s' = events s @ pre @ OrderFilled ?f # (post @ more)" by simp
  with e2(2) show ?thesis by blast
qed

lemma fill_working_add_effect:
  assumes "fill_working_add C n order s = Inr s'"
  shows "steady s s'
    \<and> (\<exists>pre rest price. events s' = events s @ pre @
            OrderFilled \<lparr>ev_order_id = o_id order, ev_symbol = o_symbol order,
                         ev_order_side = o_side order, ev_filled_quantity = o_quantity order,
                         ev_average_price = price\<rparr> # rest
          \<and> (\<forall>ev\<in>set pre. \<not> is_fill ev)
          \<and> (price = o_price order
              \<or> (\<exists>sl. slippages s (o_symbol order) = Some sl \<and> price = o_price order + sl)))"
proof -
  obtain slipped fm where sl: "is_slipped C (fill_model s) = (slipped, fm)"
    by (cases "is_slipped C (fill_model s)") auto
  let ?s2 = "s\<lparr>working_orders := AList.delete (o_id order) (working_orders s),
               fill_model := fm\<rparr>"
  have st: "steady s ?s2" "events ?s2 = events s"
    by (simp_all add: steady_def ledger_base_def booked_def)
  from assms obtain w where w: "map_of (working_orders s) (o_id order) = Some w"
    by (cases "map_of (working_orders s) (o_id order)") (simp_all add: fill_working_add_def)
  from assms w sl obtain price where
    f: "fill_order C n order price ?s2 = Inr s'"
    and p: "price = o_price order
            \<or> (\<exists>sl. slippages s (o_symbol order) = Some sl \<and> price = o_price order + sl)"
    by (cases slipped; cases "slippages s (o_symbol order)")
       (auto simp: fill_working_add_def Let_def)
  from fill_order_steady[OF f] st(1) have "steady s s'" by (blast intro: steady_trans)
  moreover from fill_order_first_fill[OF f] st(2) p
  have "\<exists>pre rest price. events s' = events s @ pre @
            OrderFilled \<lparr>ev_order_id = o_id order, ev_symbol = o_symbol order,
                         ev_order_side = o_side order, ev_filled_quantity = o_quantity order,
                         ev_average_price = price\<rparr> # rest
          \<and> (\<forall>ev\<in>set pre. \<not> is_fill ev)
          \<and> (price = o_price order
              \<or> (\<exists>sl. slippages s (o_symbol order) = Some sl \<and> price = o_price order + sl))"
    by (metis (no_types, lifting))
  ultimately show ?thesis by simp
qed

lemma fill_working_subtract_effect:
  assumes "fill_working_subtract C n order s = Inr s'"
  shows "steady s s'
    \<and> (\<exists>pre rest price. events s' = events s @ pre @
            OrderFilled \<lparr>ev_order_id = o_id order, ev_symbol = o_symbol order,
                         ev_order_side = o_side order, ev_filled_quantity = o_quantity order,
                         ev_average_price = price\<rparr> # rest
          \<and> (\<forall>ev\<in>set pre. \<not> is_fill ev)
          \<and> (price = o_price order
              \<or> (\<exists>sl. slippages s (o_symbol order) = Some sl \<and> price = o_price order - sl)))"
proof -
  obtain slipped fm where sl: "is_slipped C (fill_model s) = (slipped, fm)"
    by (cases "is_slipped C (fill_model s)") auto
  let ?s2 = "s\<lparr>working_orders := AList.delete (o_id order) (working_orders s),
               fill_model := fm\<rparr>"
  have st: "steady s ?s2" "events ?s2 = events s"
    by (simp_all add: steady_def ledger_base_def booked_def)
  from assms obtain w where w: "map_of (working_orders s) (o_id order) = Some w"
    by (cases "map_of (working_orders s) (o_id order)") (simp_all add: fill_working_subtract_def)
  from assms w sl obtain price where
    f: "fill_order C n order price ?s2 = Inr s'"
    and p: "price = o_price order
            \<or> (\<exists>sl. slippages s (o_symbol order) = Some sl \<and> price = o_price order - sl)"
    by (cases slipped; cases "slippages s (o_symbol order)")
       (auto simp: fill_working_subtract_def Let_def)
  from fill_order_steady[OF f] st(1) have "steady s s'" by (blast intro: steady_trans)
  moreover from fill_order_first_fill[OF f] st(2) p
  have "\<exists>pre rest price. events s' = events s @ pre @
            OrderFilled \<lparr>ev_order_id = o_id order, ev_symbol = o_symbol order,
                         ev_order_side = o_side order, ev_filled_quantity = o_quantity order,
                         ev_average_price = price\<rparr> # rest
          \<and> (\<forall>ev\<in>set pre. \<not> is_fill ev)
          \<and> (price = o_price order
              \<or> (\<exists>sl. slippages s (o_symbol order) = Some sl \<and> price = o_price order - sl))"
    by (metis (no_types, lifting))
  ultimately show ?thesis by simp
qed

lemma check_order_expiry_effect:
  assumes "check_order_expiry C t order s = Inr s'"
  shows "steady s s'
     \<and> (atomic_child_orders s' = atomic_child_orders s
        \<or> atomic_child_orders s' = AList.delete (o_id order) (atomic_child_orders s))
     \<and> fst ` set (working_orders s') \<subseteq> fst ` set (working_orders s)
     \<and> (\<exists>evs. events s' = events s @ evs \<and> (\<forall>ev\<in>set evs. \<not> is_fill ev))"
proof -
  let ?s1 = "s\<lparr>working_orders := AList.delete (o_id order) (working_orders s)\<rparr>"
  have "s' = s \<or> expire_order C order ?s1 = Inr s'"
  proof (cases "o_expire_time order")
    case None
    with assms show ?thesis by (simp add: check_order_expiry_def)
  next
    case (Some et)
    show ?thesis
    proof (cases "t \<ge> et")
      case False
      from Some this assms show ?thesis by (simp add: check_order_expiry_def)
    next
      case True
      from Some this assms show ?thesis
        by (cases "map_of (working_orders s) (o_id order)")
           (simp_all add: check_order_expiry_def)
    qed
  qed
  then show ?thesis
  proof
    assume "s' = s"
    then show ?thesis by simp
  next
    assume 2: "expire_order C order ?s1 = Inr s'"
    from expire_order_effect[OF 2] obtain evs where
      *: "steady ?s1 s'" "atomic_child_orders s' = AList.delete (o_id order) (atomic_child_orders ?s1)"
         "fst ` set (working_orders s') \<subseteq> fst ` set (working_orders ?s1)"
         "events s' = events ?s1 @ OrderExpired (o_id order) # evs"
         "\<forall>ev\<in>set evs. \<not> is_fill ev"
      by blast
    have "steady s ?s1" by simp
    then have "steady s s'" using *(1) by (rule steady_trans)
    moreover have "fst ` set (working_orders s') \<subseteq> fst ` set (working_orders s)"
      using *(3) dom_delete_subset[of "o_id order" "working_orders s"] by auto
    moreover from *(5) have "\<forall>ev\<in>set (OrderExpired (o_id order) # evs). \<not> is_fill ev"
      by (simp add: is_fill_def)
    with *(4) have "\<exists>evs. events s' = events s @ evs \<and> (\<forall>ev\<in>set evs. \<not> is_fill ev)"
      by (intro exI[of _ "OrderExpired (o_id order) # evs"]) simp
    ultimately show ?thesis using *(2) by simp
  qed
qed

lemma match_order_steady:
  assumes "match_order C n tick t order s = Inr s'"
  shows "steady s s'"
proof -
  have fm: "steady s s1" if "s1 = s \<or> (\<exists>fm. s1 = s\<lparr>fill_model := fm\<rparr>)" for s1
    using that by auto
  from match_order_cases[OF assms] show ?thesis
    using fm check_order_expiry_effect fill_working_add_effect fill_working_subtract_effect
    by (metis steady_refl steady_trans)
qed

lemma match_orders_steady:
  "match_orders C n tick t orders s = Inr s' \<Longrightarrow> steady s s'"
proof (induction orders arbitrary: s)
  case Nil
  then show ?case by simp
next
  case (Cons order orders)
  from Cons.prems obtain s1 where 1: "match_order C n tick t order s = Inr s1"
    and 2: "match_orders C n tick t orders s1 = Inr s'"
    by (cases "match_order C n tick t order s") auto
  from match_order_steady[OF 1] Cons.IH[OF 2] show ?case by (rule steady_trans)
qed

lemma process_tick_steady:
  assumes "process_tick C n tick s = Inr s'"
  shows "steady s s'"
proof -
  let ?s1 = "s\<lparr>clock := tick_timestamp tick,
               market := AList.update (tick_symbol tick) tick (market s)\<rparr>"
  let ?s2 = "if day_number ?s1 \<noteq> day_of C (clock ?s1) then
                 ?s1\<lparr>day_number := day_of C (clock ?s1),
                    account_cash_start_day := account_cash_balance C (exec_engine ?s1),
                    account_cash_activity_day := 0,
                    rollover_applied := False,
                    rollover_time := Some (rollover_time_of C (clock ?s1))\<rparr>
               else ?s1"
  have s2: "steady s ?s2"
    by (simp add: steady_def ledger_base_def booked_def)
  from assms obtain s3 where
    r: "(if \<not> rollover_applied ?s2 then
             (case rollover_time ?s2 of
                None \<Rightarrow> Inl TypeError
              | Some rt \<Rightarrow>
                  if clock ?s1 \<ge> rt then
                    bindE (apply_rollover_interest C (clock ?s1) (isoweekday C rt) ?s2)
                      (\<lambda>s3. Inr (s3\<lparr>rollover_applied := True\<rparr>))
                  else Inr ?s2)
           else Inr ?s2) = Inr s3"
    and m: "(if working_orders s3 = [] then Inr s3
             else match_orders C n tick (clock ?s1) (map snd (working_orders s3)) s3) = Inr s'"
    unfolding process_tick_def Let_def bindE_Inr_iff by blast
  from r have "steady ?s2 s3"
  proof (cases "rollover_applied ?s2")
    case True
    with r have "s3 = ?s2" by (simp del: split_paired_All)
    then show ?thesis by simp
  next
    case False
    with r obtain rt where rt: "rollover_time ?s2 = Some rt"
      by (cases "rollover_time ?s2") auto
    show ?thesis
    proof (cases "clock ?s1 \<ge> rt")
      case True
      with r False rt obtain s3' where
        a: "apply_rollover_interest C (clock ?s1) (isoweekday C rt) ?s2 = Inr s3'"
        and "s3 = s3'\<lparr>rollover_applied := True\<rparr>"
        by (auto simp: bindE_Inr_iff)
      then have "steady s3' s3" by (simp add: steady_def ledger_base_def booked_def)
      with apply_rollover_interest_effect[OF a] show ?thesis by (blast intro: steady_trans)
    next
      case nt: False
      from False rt nt r have "s3 = ?s2" by simp
      then show ?thesis by simp
    qed
  qed
  moreover from m have "steady s3 s'"
    by (cases "working_orders s3 = []") (auto dest: match_orders_steady)
  ultimately show ?thesis using s2 by (blast intro: steady_trans)
qed

subsection \<open>Commands\<close>

lemma cancel_reject_order_steady:
  "cancel_reject_order C arg response reason s = Inr s' \<Longrightarrow> steady s s'"
  by (cases arg) (auto simp: cancel_reject_order_def)

lemma submit_order_steady:
  assumes "submit_order C n order s = Inr s'"
  shows "steady s s'"
proof -
  have "steady s (exec_engine_handle_event C (OrderSubmitted (o_id order)) s)" by simp
  moreover from assms
  have "steady (exec_engine_handle_event C (OrderSubmitted (o_id order)) s) s'"
    unfolding submit_order_def by (rule process_order_steady)
  ultimately show ?thesis by (rule steady_trans)
qed

lemma cancel_order_steady:
  assumes "cancel_order C order_id s = Inr s'"
  shows "steady s s'"
proof (cases "map_of (working_orders s) order_id")
  case None
  with assms show ?thesis
    by (auto simp: cancel_order_def dest: cancel_reject_order_steady)
next
  case (Some order)
  let ?s1 = "s\<lparr>working_orders := AList.delete order_id (working_orders s)\<rparr>"
  from Some assms have
    "check_oco_order C order_id (exec_engine_handle_event C (OrderCancelled (o_id order)) ?s1)
      = Inr s'"
    by (simp add: cancel_order_def Let_def)
  from check_oco_order_effect[OF this]
  have "steady (exec_engine_handle_event C (OrderCancelled (o_id order)) ?s1) s'" by blast
  moreover have "steady s ?s1" by simp
  moreover have "steady ?s1 (exec_engine_handle_event C (OrderCancelled (o_id order)) ?s1)"
    by simp
  ultimately show ?thesis by (blast intro: steady_trans)
qed

lemma modify_order_steady:
  assumes "modify_order C order_id q p s = Inr s'"
  shows "steady s s'"
proof (cases "map_of (working_orders s) order_id")
  case None
  with assms show ?thesis
    by (auto simp: modify_order_def dest: cancel_reject_order_steady)
next
  case (Some order)
  from Some assms obtain i where i: "instruments s (o_symbol order) = Some i"
    by (cases "instruments s (o_symbol order)") (simp_all add: modify_order_def)
  show ?thesis
  proof (cases "feq C (quantity_as_double C q) (f_zero C)")
    case True
    from Some i this assms show ?thesis
      by (auto simp: modify_order_def dest: cancel_reject_order_steady)
  next
    case False
    from Some i False assms obtain cm where cm: "map_of (market s) (o_symbol order) = Some cm"
      by (cases "map_of (market s) (o_symbol order)") (simp_all add: modify_order_def)
    from Some i False cm assms have
      b: "bindE (check_valid_price C order cm True s)
            (\<lambda>(valid, s1).
               if \<not> valid then Inr s1
               else Inr (exec_engine_handle_event C (OrderModified (o_id order) q p) s1))
          = Inr s'"
      by (simp add: modify_order_def)
    then obtain vs where vs: "check_valid_price C order cm True s = Inr vs"
      by (cases "check_valid_price C order cm True s") simp_all
    obtain valid s1 where vs': "vs = (valid, s1)" by (cases vs)
    from vs vs' have v: "check_valid_price C order cm True s = Inr (valid, s1)" by simp
    from b v have r: "s' = (if \<not> valid then s1
                    else exec_engine_handle_event C (OrderModified (o_id order) q p) s1)"
      by (cases valid) simp_all
    from check_valid_price_effect[OF v] have "steady s s1" by blast
    moreover have "steady s1 s'" unfolding r by simp
    ultimately show ?thesis by (rule steady_trans)
  qed
qed

lemma submit_atomic_order_eq:
  "submit_atomic_order C n entry stop_loss take_profit s =
    submit_order C n entry
      (s\<lparr>oco_orders :=
           (case take_profit of
              None \<Rightarrow> oco_orders s
            | Some tp \<Rightarrow> (oco_orders s)(o_id tp \<mapsto> o_id stop_loss, o_id stop_loss \<mapsto> o_id tp)),
         atomic_child_orders :=
           AList.update (o_id entry)
             (case take_profit of None \<Rightarrow> [stop_loss] | Some tp \<Rightarrow> [stop_loss, tp])
             (atomic_child_orders s)\<rparr>)"
  by (cases take_profit) (simp_all add: submit_atomic_order_def)

subsection \<open>The first fill among new events\<close>




lemma rollover_positions_sum:
  assumes z: "feq C (f_zero C) (f_zero C)"
  shows "\<lbrakk>\<forall>sym m. mids sym = Some m \<longrightarrow>
            (\<exists>mkt. map_of (market s) sym = Some mkt \<and> m = mid_of C mkt);
          rollover_sum C timestamp s positions running = Some r\<rbrakk>
         \<Longrightarrow> \<exists>mids'. rollover_positions C timestamp s positions (mids, running) = Inr (mids', r)"
proof (induction positions arbitrary: mids running)
  case Nil
  then show ?case by simp
next
  case (Cons position rest)
  from Cons.prems(2) obtain i where i: "instruments s (p_symbol position) = Some i"
    by (cases "instruments s (p_symbol position)") simp_all
  show ?case
  proof (cases "i_security_type i = FOREX")
    case False
    with Cons.prems(2) i have "rollover_sum C timestamp s rest running = Some r" by simp
    from Cons.IH[OF Cons.prems(1) this] i False show ?thesis by simp
  next
    case True
    with Cons.prems(2) i obtain mkt where mkt: "map_of (market s) (i_symbol i) = Some mkt"
      by (cases "map_of (market s) (i_symbol i)") simp_all
    let ?running1 = "fadd C running (position_rollover C timestamp s i mkt position)"
    from Cons.prems(2) i True mkt
    have sum: "rollover_sum C timestamp s rest ?running1 = Some r" by simp
    let ?mp = "case mids (i_symbol i) of None \<Rightarrow> f_zero C | Some m \<Rightarrow> m"
    show ?thesis
    proof (cases "feq C ?mp (f_zero C)")
      case z0: True
      let ?mids1 = "mids(i_symbol i \<mapsto> mid_of C mkt)"
      from mkt Cons.prems(1)
      have inv: "\<forall>sym m. ?mids1 sym = Some m \<longrightarrow>
                (\<exists>mkt. map_of (market s) sym = Some mkt \<and> m = mid_of C mkt)"
        by simp
      from Cons.IH[OF inv sum] obtain mids' where
        "rollover_positions C timestamp s rest (?mids1, ?running1) = Inr (mids', r)" by blast
      with i True mkt z0 have
        "rollover_positions C timestamp s (position # rest) (mids, running) = Inr (mids', r)"
        by (simp add: Let_def position_rollover_def mid_of_def)
      then show ?thesis by blast
    next
      case z1: False
      with z obtain m where m: "mids (i_symbol i) = Some m"
        by (cases "mids (i_symbol i)") auto
      with Cons.prems(1) mkt have mm: "m = mid_of C mkt" by fastforce
      from Cons.IH[OF Cons.prems(1) sum] obtain mids' where
        "rollover_positions C timestamp s rest (mids, ?running1) = Inr (mids', r)" by blast
      with i True mkt z1 m mm have
        "rollover_positions C timestamp s (position # rest) (mids, running) = Inr (mids', r)"
        by (simp add: Let_def position_rollover_def mid_of_def)
      then show ?thesis by blast
    qed
  qed
qed

subsection \<open>The ledger\<close>


lemma step_steady:
  assumes "step C n op s = Inr s'" and "op \<noteq> Reset"
    and "\<forall>entry sl tp. op \<noteq> SubmitAtomicOrder entry sl tp"
  shows "steady s s'"
proof (cases op)
  case (ProcessTick tick)
  with assms show ?thesis by (simp add: process_tick_steady)
next
  case (AdjustAccount ev pos)
  with assms adjust_account_effect[of C ev pos s s'] show ?thesis by simp
next
  case (ApplyRolloverInterest ts wd)
  with assms apply_rollover_interest_effect[of C ts wd s s'] show ?thesis by simp
next
  case AccountInquiry
  with assms show ?thesis by (auto simp: account_inquiry_def)
next
  case (SubmitOrder order)
  with assms show ?thesis by (simp add: submit_order_steady)
next
  case (SubmitAtomicOrder entry sl tp)
  with assms show ?thesis by simp
next
  case (CancelOrder oid)
  with assms show ?thesis by (simp add: cancel_order_steady)
next
  case (ModifyOrder oid q p)
  with assms show ?thesis by (simp add: modify_order_steady)
next
  case (ChangeFillModel fm)
  with assms show ?thesis by (auto simp: change_fill_model_def)
next
  case Reset
  with assms show ?thesis by simp
qed



subsection \<open>Symmetry of the OCO map\<close>

lemma oco_symmetric_insert_pair:
  assumes sym: "oco_symmetric m" and ab: "a \<noteq> b" and a: "m a = None" and b: "m b = None"
  shows "oco_symmetric (m(a \<mapsto> b, b \<mapsto> a))"
  unfolding oco_symmetric_def
proof (intro allI impI)
  fix x y
  assume h: "(m(a \<mapsto> b, b \<mapsto> a)) x = Some y"
  show "(m(a \<mapsto> b, b \<mapsto> a)) y = Some x \<and> x \<noteq> y"
  proof (cases "x = b")
    case True
    with h ab show ?thesis by auto
  next
    case xb: False
    show ?thesis
    proof (cases "x = a")
      case True
      with h ab show ?thesis by auto
    next
      case xa: False
      with xb h have mx: "m x = Some y" by simp
      with sym have my: "m y = Some x" "x \<noteq> y" unfolding oco_symmetric_def by blast+
      from my(1) a b have "y \<noteq> a" "y \<noteq> b" by auto
      with my show ?thesis by simp
    qed
  qed
qed

lemma oco_symmetric_empty [simp]: "oco_symmetric Map.empty"
  by (simp add: oco_symmetric_def)

lemma submit_atomic_order_oco:
  assumes "submit_atomic_order C n entry sl tp s = Inr s'"
    and "oco_symmetric (oco_orders s)" and "oco_fresh (SubmitAtomicOrder entry sl tp) s"
  shows "oco_symmetric (oco_orders s')"
proof -
  let ?s2 = "s\<lparr>oco_orders :=
           (case tp of
              None \<Rightarrow> oco_orders s
            | Some tp \<Rightarrow> (oco_orders s)(o_id tp \<mapsto> o_id sl, o_id sl \<mapsto> o_id tp)),
         atomic_child_orders :=
           AList.update (o_id entry)
             (case tp of None \<Rightarrow> [sl] | Some tp \<Rightarrow> [sl, tp])
             (atomic_child_orders s)\<rparr>"
  from assms(1) have "submit_order C n entry ?s2 = Inr s'"
    by (simp add: submit_atomic_order_eq)
  then have st: "steady ?s2 s'" by (rule submit_order_steady)
  have "oco_symmetric (oco_orders ?s2)"
  proof (cases tp)
    case None
    with assms(2) show ?thesis by simp
  next
    case (Some t)
    with assms(3) have "o_id t \<noteq> o_id sl" "oco_orders s (o_id t) = None"
      "oco_orders s (o_id sl) = None" by auto
    from oco_symmetric_insert_pair[OF assms(2) this] Some show ?thesis by simp
  qed
  with st show ?thesis by (simp add: steady_def)
qed

lemma step_oco:
  assumes "step C n op s = Inr s'" and "oco_symmetric (oco_orders s)" and "oco_fresh op s"
  shows "oco_symmetric (oco_orders s')"
proof (cases "op = Reset")
  case True
  with assms(1) show ?thesis by (auto simp: reset_def)
next
  case nr: False
  show ?thesis
  proof (cases "\<exists>entry sl tp. op = SubmitAtomicOrder entry sl tp")
    case False
    with assms(1) nr have "steady s s'" by (intro step_steady) auto
    with assms(2) show ?thesis by (simp add: steady_def)
  next
    case True
    then obtain entry sl tp where op: "op = SubmitAtomicOrder entry sl tp" by blast
    with assms show ?thesis by (auto intro: submit_atomic_order_oco)
  qed
qed

lemma run_oco:
  "run C n ops s = Inr s' \<Longrightarrow> oco_symmetric (oco_orders s) \<Longrightarrow> along oco_fresh C n ops s
     \<Longrightarrow> oco_symmetric (oco_orders s')"
proof (induction ops arbitrary: s)
  case Nil
  then show ?case by simp
next
  case (Cons op ops)
  from Cons.prems(1) obtain s1 where 1: "step C n op s = Inr s1"
    and 2: "run C n ops s1 = Inr s'"
    by (cases "step C n op s") auto
  from Cons.prems(3) 1 have f: "oco_fresh op s" "along oco_fresh C n ops s1" by auto
  from step_oco[OF 1 Cons.prems(2) f(1)] have "oco_symmetric (oco_orders s1)" .
  from Cons.IH[OF 2 this f(2)] show ?case .
qed

subsection \<open>Release of atomic child orders\<close>

lemma set_delete_subset: "set (AList.delete k al) \<subseteq> set al"
  by (auto simp: AList.delete_eq)

lemma brackets_shrink:
  assumes "atomic_child_orders s' = atomic_child_orders s
     \<or> atomic_child_orders s' = AList.delete k (atomic_child_orders s)"
  shows "set (atomic_child_orders s') \<subseteq> set (atomic_child_orders s)"
  using assms set_delete_subset[of k "atomic_child_orders s"] by auto

lemma filled_ids_append:
  "events s' = events s @ evs \<Longrightarrow> set (filled_ids s) \<subseteq> set (filled_ids s')"
  by (simp add: filled_ids_def)

lemma filled_ids_fill:
  "events s' = events s @ pre @ OrderFilled f # post \<Longrightarrow> ev_order_id f \<in> set (filled_ids s')"
  by (simp add: filled_ids_def)

lemma released_later:
  assumes "released s s1 k" and "set (atomic_child_orders s2) \<subseteq> set (atomic_child_orders s1)"
    and "events s2 = events s1 @ evs"
  shows "released s s2 k"
proof -
  from assms(1) obtain p cs where
    *: "(p, cs) \<in> set (atomic_child_orders s)" "k \<in> o_id ` set cs"
       "p \<notin> bracket_ids s1" "p \<in> set (filled_ids s1)"
    unfolding released_def by blast
  from assms(2) have "bracket_ids s2 \<subseteq> bracket_ids s1"
    unfolding bracket_ids_def by (rule image_mono)
  with *(3) have "p \<notin> bracket_ids s2" by blast
  moreover from *(4) filled_ids_append[OF assms(3)] have "p \<in> set (filled_ids s2)" by blast
  ultimately show ?thesis unfolding released_def using *(1,2) by blast
qed

lemma released_earlier:
  "released s1 s2 k \<Longrightarrow> set (atomic_child_orders s1) \<subseteq> set (atomic_child_orders s)
     \<Longrightarrow> released s s2 k"
  unfolding released_def by blast

lemma grew_refl [simp]: "grew A s s"
  by (simp add: grew_def)

lemma grew_trans:
  assumes g1: "grew A s s1" and g2: "grew B s1 s2"
  shows "grew (A \<union> B) s s2"
proof -
  from g1 obtain evs1 where
    a1: "set (atomic_child_orders s1) \<subseteq> set (atomic_child_orders s)"
    and e1: "events s1 = events s @ evs1"
    and w1: "\<forall>k\<in>working_ids s1. k \<in> working_ids s \<or> k \<in> A \<or> released s s1 k"
    unfolding grew_def by blast
  from g2 obtain evs2 where
    a2: "set (atomic_child_orders s2) \<subseteq> set (atomic_child_orders s1)"
    and e2: "events s2 = events s1 @ evs2"
    and w2: "\<forall>k\<in>working_ids s2. k \<in> working_ids s1 \<or> k \<in> B \<or> released s1 s2 k"
    unfolding grew_def by blast
  have "\<forall>k\<in>working_ids s2. k \<in> working_ids s \<or> k \<in> A \<union> B \<or> released s s2 k"
  proof
    fix k
    assume "k \<in> working_ids s2"
    with w2 consider (old) "k \<in> working_ids s1" | (new) "k \<in> B" | (rel) "released s1 s2 k"
      by blast
    then show "k \<in> working_ids s \<or> k \<in> A \<union> B \<or> released s s2 k"
    proof cases
      case old
      with w1 consider (old1) "k \<in> working_ids s" | (new1) "k \<in> A" | (rel1) "released s s1 k"
        by blast
      then show ?thesis
      proof cases
        case rel1
        from released_later[OF rel1 a2 e2] show ?thesis by simp
      qed simp_all
    next
      case new
      then show ?thesis by simp
    next
      case rel
      from released_earlier[OF rel a1] show ?thesis by simp
    qed
  qed
  moreover from a1 a2 have "set (atomic_child_orders s2) \<subseteq> set (atomic_child_orders s)"
    by blast
  moreover from e1 e2 have "\<exists>evs. events s2 = events s @ evs" by simp
  ultimately show ?thesis unfolding grew_def by blast
qed

lemma grew_mono: "grew A s s' \<Longrightarrow> A \<subseteq> B \<Longrightarrow> grew B s s'"
  unfolding grew_def by blast

lemma grew_then: "grew {} s s1 \<Longrightarrow> grew A s1 s2 \<Longrightarrow> grew A s s2"
  using grew_trans[of "{}" s s1 A s2] by simp

lemma grew_release:
  "grew A s s' \<Longrightarrow> \<forall>k\<in>A. released s s' k \<Longrightarrow> grew {} s s'"
  unfolding grew_def by blast

lemma grewI:
  assumes "steady s s'"
    and "set (atomic_child_orders s') \<subseteq> set (atomic_child_orders s)"
    and "fst ` set (working_orders s') \<subseteq> A \<union> fst ` set (working_orders s)"
  shows "grew A s s'"
proof -
  from assms(1) have "\<exists>evs. events s' = events s @ evs" by (simp add: steady_def)
  with assms(2,3) show ?thesis unfolding grew_def working_ids_def by blast
qed

lemma grew_untouched:
  assumes "untouched s s'" and "events s' = events s @ evs"
  shows "grew A s s'"
proof (rule grewI)
  from assms show "steady s s'" by (rule untouched_steady)
qed (use assms(1) in \<open>simp_all add: untouched_def\<close>)

subsection \<open>Order processing\<close>

lemma process_order_grew_step:
  assumes fill: "\<And>order p s s'. fill_order C n order p s = Inr s' \<Longrightarrow> grew {} s s'"
    and p: "process_order C n order s = Inr s'"
  shows "grew {o_id order} s s'"
proof (cases "validate_order C order s")
  case (Inl e)
  with p show ?thesis by (simp add: process_order_unfold)
next
  case (Inr out)
  show ?thesis
  proof (cases out)
    case (Finished s1)
    with Inr p have s': "s' = s1" by (simp add: process_order_unfold)
    from Inr Finished have v: "validate_order C order s = Inr (Finished s1)" by simp
    from validate_order_finished[OF v] have
      *: "steady s s1"
         "atomic_child_orders s1 = atomic_child_orders s
            \<or> atomic_child_orders s1 = AList.delete (o_id order) (atomic_child_orders s)"
         "fst ` set (working_orders s1) \<subseteq> insert (o_id order) (fst ` set (working_orders s))"
      by blast+
    show ?thesis unfolding s'
      using *(1) brackets_shrink[OF *(2)] *(3) by (intro grewI) auto
  next
    case (ToFill price s3)
    with Inr p have f: "fill_order C n order price s3 = Inr s'"
      by (simp add: process_order_unfold)
    from Inr ToFill have v: "validate_order C order s = Inr (ToFill price s3)" by simp
    from validate_order_to_fill[OF v] have "grew {} s s3"
      by (blast intro: grew_untouched)
    with fill[OF f] have "grew {} s s'" by (blast intro: grew_then)
    then show ?thesis by (rule grew_mono) simp
  qed
qed

lemma work_child_orders_grew_step:
  assumes proc: "\<And>order s s'. process_order C n order s = Inr s' \<Longrightarrow> grew {o_id order} s s'"
  shows "work_child_orders C n children s = Inr s' \<Longrightarrow> grew (o_id ` set children) s s'"
proof (induction children arbitrary: s)
  case Nil
  then show ?case by simp
next
  case (Cons c cs)
  show ?case
  proof (cases "order_is_completed C (exec_engine s) c")
    case True
    with Cons.prems have "work_child_orders C n cs s = Inr s'" by simp
    then have "grew (o_id ` set cs) s s'" by (rule Cons.IH)
    then show ?thesis by (rule grew_mono) auto
  next
    case False
    with Cons.prems obtain s1 where 1: "process_order C n c s = Inr s1"
      and 2: "work_child_orders C n cs s1 = Inr s'"
      by (cases "process_order C n c s") auto
    from grew_trans[OF proc[OF 1] Cons.IH[OF 2]] show ?thesis by simp
  qed
qed

lemma fill_order_grew:
  "fill_order C n order p s = Inr s' \<Longrightarrow>
     grew {} s s' \<and> o_id order \<notin> bracket_ids s' \<and> o_id order \<in> set (filled_ids s')"
proof (induction n arbitrary: order p s s')
  case 0
  then show ?case by simp
next
  case (Suc n)
  from Suc.prems obtain s2 where a: "announce_fill C order p s = Inr s2"
    by (cases "announce_fill C order p s") (simp_all add: fill_order_unfold)
  from announce_fill_effect[OF a] obtain pre post where
    *: "steady s s2" "atomic_child_orders s2 = atomic_child_orders s"
       "fst ` set (working_orders s2) \<subseteq> fst ` set (working_orders s)"
       "events s2 = events s @ pre @
            OrderFilled \<lparr>ev_order_id = o_id order, ev_symbol = o_symbol order,
                         ev_order_side = o_side order, ev_filled_quantity = o_quantity order,
                         ev_average_price = p\<rparr> # post"
    by blast
  from *(1-3) have g2: "grew {} s s2" by (intro grewI) auto
  from filled_ids_fill[OF *(4)] have f2: "o_id order \<in> set (filled_ids s2)" by simp
  show ?case
  proof (cases "map_of (atomic_child_orders s2) (o_id order)")
    case None
    with Suc.prems a have "s' = s2" by (simp add: fill_order_unfold)
    moreover from None have "o_id order \<notin> bracket_ids s2"
      by (simp add: bracket_ids_def map_of_eq_None_iff)
    ultimately show ?thesis using g2 f2 by simp
  next
    case (Some children)
    with Suc.prems a obtain s3 where w: "work_child_orders C n children s2 = Inr s3"
      and s': "s' = s3\<lparr>atomic_child_orders := AList.delete (o_id order) (atomic_child_orders s3)\<rparr>"
      by (auto simp: fill_order_unfold split: sum.splits option.splits)
    have ih: "\<And>order p s s'. fill_order C n order p s = Inr s' \<Longrightarrow> grew {} s s'"
      using Suc.IH by blast
    have proc: "\<And>order s s'. process_order C n order s = Inr s' \<Longrightarrow> grew {o_id order} s s'"
      using ih by (rule process_order_grew_step)
    from w have g3: "grew (o_id ` set children) s2 s3"
      by (rule work_child_orders_grew_step[rotated]) (rule proc)
    have g4: "grew {} s3 s'"
      unfolding s' by (intro grewI) (simp_all add: set_delete_subset)
    from grew_trans[OF g3 g4] have "grew (o_id ` set children) s2 s'" by simp
    with g2 have g: "grew (o_id ` set children) s s'" by (rule grew_then)
    then obtain evs where e: "events s' = events s2 @ evs"
      using g3 g4 unfolding grew_def by (metis append.assoc)
    have nb: "o_id order \<notin> bracket_ids s'"
      unfolding s' bracket_ids_def by (simp add: delete_notin_dom)
    from f2 filled_ids_append[OF e] have fl: "o_id order \<in> set (filled_ids s')" by blast
    from Some have "(o_id order, children) \<in> set (atomic_child_orders s)"
      unfolding *(2)[symmetric] by (rule map_of_SomeD)
    with nb fl have "\<forall>k\<in>o_id ` set children. released s s' k"
      unfolding released_def by blast
    with g have "grew {} s s'" by (rule grew_release)
    with nb fl show ?thesis by simp
  qed
qed

lemma process_order_grew:
  "process_order C n order s = Inr s' \<Longrightarrow> grew {o_id order} s s'"
  by (rule process_order_grew_step) (use fill_order_grew in blast)

subsection \<open>Ticks and commands\<close>

lemma fill_working_grew:
  assumes "fill_working_add C n order s = Inr s' \<or> fill_working_subtract C n order s = Inr s'"
  shows "grew {} s s'"
proof -
  obtain slipped fm where sl: "is_slipped C (fill_model s) = (slipped, fm)"
    by (cases "is_slipped C (fill_model s)") auto
  let ?s2 = "s\<lparr>working_orders := AList.delete (o_id order) (working_orders s),
               fill_model := fm\<rparr>"
  have "steady s ?s2"
    by (simp add: steady_def ledger_base_def booked_def)
  then have g: "grew {} s ?s2"
    by (rule grewI) (simp_all add: dom_delete_subset)
  from assms obtain w where w: "map_of (working_orders s) (o_id order) = Some w"
    by (cases "map_of (working_orders s) (o_id order)")
       (auto simp: fill_working_add_def fill_working_subtract_def)
  from assms w sl obtain price where "fill_order C n order price ?s2 = Inr s'"
    by (cases slipped; cases "slippages s (o_symbol order)")
       (auto simp: fill_working_add_def fill_working_subtract_def Let_def)
  from fill_order_grew[OF this] g show ?thesis by (blast intro: grew_then)
qed

lemma check_order_expiry_grew:
  assumes "check_order_expiry C t order s = Inr s'"
  shows "grew {} s s'"
proof -
  from check_order_expiry_effect[OF assms] have
    *: "steady s s'"
       "atomic_child_orders s' = atomic_child_orders s
          \<or> atomic_child_orders s' = AList.delete (o_id order) (atomic_child_orders s)"
       "fst ` set (working_orders s') \<subseteq> fst ` set (working_orders s)"
    by blast+
  from *(1) brackets_shrink[OF *(2)] *(3) show ?thesis by (intro grewI) auto
qed

lemma match_order_grew:
  assumes "match_order C n tick t order s = Inr s'"
  shows "grew {} s s'"
proof -
  have fm: "grew {} s s1" if "s1 = s \<or> (\<exists>fm. s1 = s\<lparr>fill_model := fm\<rparr>)" for s1
    using that by (auto intro!: grewI)
  from match_order_cases[OF assms] consider "s' = s"
    | s1 where "s1 = s \<or> (\<exists>fm. s1 = s\<lparr>fill_model := fm\<rparr>)"
        "check_order_expiry C t order s1 = Inr s'"
    | s1 where "s1 = s \<or> (\<exists>fm. s1 = s\<lparr>fill_model := fm\<rparr>)"
        "fill_working_add C n order s1 = Inr s' \<or> fill_working_subtract C n order s1 = Inr s'"
    by blast
  then show ?thesis
  proof cases
    case 1
    then show ?thesis by simp
  next
    case 2
    from fm[OF 2(1)] check_order_expiry_grew[OF 2(2)] show ?thesis by (rule grew_then)
  next
    case 3
    from fm[OF 3(1)] fill_working_grew[OF 3(2)] show ?thesis by (rule grew_then)
  qed
qed

lemma match_orders_grew:
  "match_orders C n tick t orders s = Inr s' \<Longrightarrow> grew {} s s'"
proof (induction orders arbitrary: s)
  case Nil
  then show ?case by simp
next
  case (Cons order orders)
  from Cons.prems obtain s1 where 1: "match_order C n tick t order s = Inr s1"
    and 2: "match_orders C n tick t orders s1 = Inr s'"
    by (cases "match_order C n tick t order s") auto
  from match_order_grew[OF 1] Cons.IH[OF 2] show ?case by (rule grew_then)
qed

lemma process_tick_grew:
  assumes "process_tick C n tick s = Inr s'"
  shows "grew {} s s'"
proof -
  let ?s1 = "s\<lparr>clock := tick_timestamp tick,
               market := AList.update (tick_symbol tick) tick (market s)\<rparr>"
  let ?s2 = "if day_number ?s1 \<noteq> day_of C (clock ?s1) then
                 ?s1\<lparr>day_number := day_of C (clock ?s1),
                    account_cash_start_day := account_cash_balance C (exec_engine ?s1),
                    account_cash_activity_day := 0,
                    rollover_applied := False,
                    rollover_time := Some (rollover_time_of C (clock ?s1))\<rparr>
               else ?s1"
  have "steady s ?s2"
    by (simp add: steady_def ledger_base_def booked_def)
  then have s2: "grew {} s ?s2" by (rule grewI) simp_all
  from assms obtain s3 where
    r: "(if \<not> rollover_applied ?s2 then
             (case rollover_time ?s2 of
                None \<Rightarrow> Inl TypeError
              | Some rt \<Rightarrow>
                  if clock ?s1 \<ge> rt then
                    bindE (apply_rollover_interest C (clock ?s1) (isoweekday C rt) ?s2)
                      (\<lambda>s3. Inr (s3\<lparr>rollover_applied := True\<rparr>))
                  else Inr ?s2)
           else Inr ?s2) = Inr s3"
    and m: "(if working_orders s3 = [] then Inr s3
             else match_orders C n tick (clock ?s1) (map snd (working_orders s3)) s3) = Inr s'"
    unfolding process_tick_def Let_def bindE_Inr_iff by blast
  from r have "grew {} ?s2 s3"
  proof (cases "rollover_applied ?s2")
    case True
    with r have "s3 = ?s2" by (simp del: split_paired_All)
    then show ?thesis by simp
  next
    case False
    with r obtain rt where rt: "rollover_time ?s2 = Some rt"
      by (cases "rollover_time ?s2") auto
    show ?thesis
    proof (cases "clock ?s1 \<ge> rt")
      case True
      with r False rt obtain s3' where
        a: "apply_rollover_interest C (clock ?s1) (isoweekday C rt) ?s2 = Inr s3'"
        and s3: "s3 = s3'\<lparr>rollover_applied := True\<rparr>"
        by (auto simp: bindE_Inr_iff)
      have "steady s3' s3" unfolding s3 by (simp add: steady_def ledger_base_def booked_def)
      then have "grew {} s3' s3" by (rule grewI) (simp_all add: s3)
      moreover from apply_rollover_interest_effect[OF a] have "grew {} ?s2 s3'"
        by (intro grewI) auto
      ultimately show ?thesis by (blast intro: grew_then)
    next
      case nt: False
      from False rt nt r have "s3 = ?s2" by simp
      then show ?thesis by simp
    qed
  qed
  moreover from m have "grew {} s3 s'"
    by (cases "working_orders s3 = []") (auto dest: match_orders_grew)
  ultimately show ?thesis using s2 by (blast intro: grew_then)
qed

lemma cancel_reject_order_grew:
  "cancel_reject_order C arg response reason s = Inr s' \<Longrightarrow> grew {} s s'"
  by (cases arg) (auto simp: cancel_reject_order_def intro: grew_untouched)

lemma submit_order_grew:
  assumes "submit_order C n order s = Inr s'"
  shows "grew {o_id order} s s'"
proof -
  have "grew {} s (exec_engine_handle_event C (OrderSubmitted (o_id order)) s)"
    by (rule grew_untouched) simp_all
  moreover from assms
  have "grew {o_id order} (exec_engine_handle_event C (OrderSubmitted (o_id order)) s) s'"
    unfolding submit_order_def by (rule process_order_grew)
  ultimately show ?thesis by (rule grew_then)
qed

lemma cancel_order_grew:
  assumes "cancel_order C order_id s = Inr s'"
  shows "grew {} s s'"
proof (cases "map_of (working_orders s) order_id")
  case None
  with assms show ?thesis
    by (auto simp: cancel_order_def dest: cancel_reject_order_grew)
next
  case (Some order)
  let ?s1 = "s\<lparr>working_orders := AList.delete order_id (working_orders s)\<rparr>"
  let ?s2 = "exec_engine_handle_event C (OrderCancelled (o_id order)) ?s1"
  from Some assms have "check_oco_order C order_id ?s2 = Inr s'"
    by (simp add: cancel_order_def Let_def)
  from check_oco_order_effect[OF this] have "grew {} ?s2 s'"
    by (intro grewI) auto
  moreover have "grew {} s ?s1"
    by (rule grewI) (simp_all add: dom_delete_subset)
  moreover have "grew {} ?s1 ?s2"
    by (rule grew_untouched) simp_all
  ultimately show ?thesis by (blast intro: grew_then)
qed

lemma modify_order_grew:
  assumes "modify_order C order_id q p s = Inr s'"
  shows "grew {} s s'"
proof (cases "map_of (working_orders s) order_id")
  case None
  with assms show ?thesis
    by (auto simp: modify_order_def dest: cancel_reject_order_grew)
next
  case (Some order)
  from Some assms obtain i where i: "instruments s (o_symbol order) = Some i"
    by (cases "instruments s (o_symbol order)") (simp_all add: modify_order_def)
  show ?thesis
  proof (cases "feq C (quantity_as_double C q) (f_zero C)")
    case True
    from Some i this assms show ?thesis
      by (auto simp: modify_order_def dest: cancel_reject_order_grew)
  next
    case False
    from Some i False assms obtain cm where cm: "map_of (market s) (o_symbol order) = Some cm"
      by (cases "map_of (market s) (o_symbol order)") (simp_all add: modify_order_def)
    from Some i False cm assms have
      b: "bindE (check_valid_price C order cm True s)
            (\<lambda>(valid, s1).
               if \<not> valid then Inr s1
               else Inr (exec_engine_handle_event C (OrderModified (o_id order) q p) s1))
          = Inr s'"
      by (simp add: modify_order_def)
    then obtain vs where vs: "check_valid_price C order cm True s = Inr vs"
      by (cases "check_valid_price C order cm True s") simp_all
    obtain valid s1 where vs': "vs = (valid, s1)" by (cases vs)
    from vs vs' have v: "check_valid_price C order cm True s = Inr (valid, s1)" by simp
    from b v have r: "s' = (if \<not> valid then s1
                    else exec_engine_handle_event C (OrderModified (o_id order) q p) s1)"
      by (cases valid) simp_all
    from check_valid_price_effect[OF v] have
      *: "steady s s1"
         "atomic_child_orders s1 = atomic_child_orders s
            \<or> atomic_child_orders s1 = AList.delete (o_id order) (atomic_child_orders s)"
         "fst ` set (working_orders s1) \<subseteq> fst ` set (working_orders s)"
      by blast+
    from *(1) brackets_shrink[OF *(2)] *(3) have "grew {} s s1" by (intro grewI) auto
    moreover have "grew {} s1 s'" unfolding r by (auto intro: grew_untouched)
    ultimately show ?thesis by (rule grew_then)
  qed
qed

lemma step_grew:
  assumes "step C n op s = Inr s'" and "op \<noteq> Reset"
    and "\<forall>entry sl tp. op \<noteq> SubmitAtomicOrder entry sl tp"
  shows "grew (set (plain_ids op)) s s'"
proof (cases op)
  case (ProcessTick tick)
  with assms show ?thesis by (simp add: process_tick_grew)
next
  case (AdjustAccount ev pos)
  with assms adjust_account_effect[of C ev pos s s'] show ?thesis by (auto intro!: grewI)
next
  case (ApplyRolloverInterest ts wd)
  with assms apply_rollover_interest_effect[of C ts wd s s'] show ?thesis
    by (auto intro!: grewI)
next
  case AccountInquiry
  with assms show ?thesis by (auto simp: account_inquiry_def intro: grew_untouched)
next
  case (SubmitOrder order)
  with assms show ?thesis by (simp add: submit_order_grew)
next
  case (SubmitAtomicOrder entry sl tp)
  with assms show ?thesis by simp
next
  case (CancelOrder oid)
  with assms show ?thesis by (simp add: cancel_order_grew)
next
  case (ModifyOrder oid q p)
  with assms show ?thesis by (simp add: modify_order_grew)
next
  case (ChangeFillModel fm)
  with assms show ?thesis by (auto simp: change_fill_model_def intro!: grewI)
next
  case Reset
  with assms show ?thesis by simp
qed

subsection \<open>Child orders along a run\<close>

lemma family_append [simp]: "family (xs @ ys) = family xs @ family ys"
  by (simp add: family_def)

lemma submitted_append [simp]: "submitted (xs @ ys) = submitted xs @ submitted ys"
  by (simp add: submitted_def)

lemma children_only_prefix: "children_only (xs @ ys) \<Longrightarrow> children_only xs"
  by (auto simp: children_only_def list_all_iff)

lemma confined_grew:
  assumes inv: "confined past s" and g: "grew A s s'" and A: "A \<subseteq> set (submitted past)"
    and h: "children_only past"
  shows "confined past s'"
proof -
  from inv have
    j1: "\<And>p cs c. (p, cs) \<in> set (atomic_child_orders s) \<Longrightarrow> c \<in> set cs
           \<Longrightarrow> (o_id c, p) \<in> set (family past)"
    and j2: "\<And>k p. (k, p) \<in> set (family past) \<Longrightarrow> k \<in> working_ids s
           \<Longrightarrow> p \<in> set (filled_ids s)"
    and j3: "working_ids s \<subseteq> fst ` set (family past) \<union> set (submitted past)"
    unfolding confined_def by blast+
  from g obtain evs where a: "set (atomic_child_orders s') \<subseteq> set (atomic_child_orders s)"
    and e: "events s' = events s @ evs"
    and w: "\<And>k. k \<in> working_ids s' \<Longrightarrow> k \<in> working_ids s \<or> k \<in> A \<or> released s s' k"
    unfolding grew_def by blast
  from h have d: "distinct (map fst (family past))"
    and x: "\<And>k. k \<in> fst ` set (family past) \<Longrightarrow> k \<notin> set (submitted past)"
    unfolding children_only_def by (auto simp: list_all_iff)
  have relD: "\<exists>p. (k, p) \<in> set (family past) \<and> p \<in> set (filled_ids s')"
    if "released s s' k" for k
  proof -
    from that obtain p cs where *: "(p, cs) \<in> set (atomic_child_orders s)"
      "k \<in> o_id ` set cs" "p \<in> set (filled_ids s')"
      unfolding released_def by blast
    from *(2) obtain c where "c \<in> set cs" "k = o_id c" by blast
    with j1[OF *(1)] *(3) show ?thesis by blast
  qed
  have "(o_id c, p) \<in> set (family past)"
    if "(p, cs) \<in> set (atomic_child_orders s')" "c \<in> set cs" for p cs c
    using that a j1 by blast
  moreover have "p \<in> set (filled_ids s')"
    if kp: "(k, p) \<in> set (family past)" and k: "k \<in> working_ids s'" for k p
  proof -
    from w[OF k] consider (old) "k \<in> working_ids s" | (new) "k \<in> A" | (rel) "released s s' k"
      by blast
    then show ?thesis
    proof cases
      case old
      with j2[OF kp] filled_ids_append[OF e] show ?thesis by blast
    next
      case new
      with A have "k \<in> set (submitted past)" by blast
      moreover from kp have "k \<in> fst ` set (family past)" by force
      ultimately show ?thesis using x by blast
    next
      case rel
      from relD[OF this] obtain p' where p': "(k, p') \<in> set (family past)"
        "p' \<in> set (filled_ids s')" by blast
      from d p'(1) kp have "p' = p" by (rule eq_key_imp_eq_value)
      with p'(2) show ?thesis by simp
    qed
  qed
  moreover have "working_ids s' \<subseteq> fst ` set (family past) \<union> set (submitted past)"
  proof
    fix k
    assume "k \<in> working_ids s'"
    from w[OF this] consider (old) "k \<in> working_ids s" | (new) "k \<in> A" | (rel) "released s s' k"
      by blast
    then show "k \<in> fst ` set (family past) \<union> set (submitted past)"
    proof cases
      case old
      with j3 show ?thesis by blast
    next
      case new
      with A show ?thesis by blast
    next
      case rel
      from relD[OF this] obtain p where "(k, p) \<in> set (family past)" by blast
      then have "k \<in> fst ` set (family past)" by force
      then show ?thesis by simp
    qed
  qed
  ultimately show ?thesis unfolding confined_def by blast
qed

lemma confined_extend:
  assumes inv: "confined past s" and nf: "child_parents op = []"
  shows "confined (past @ [op]) s"
  using assms unfolding confined_def by (auto simp: family_def)

lemma set_update_subset: "set (AList.update k v al) \<subseteq> insert (k, v) (set al)"
  by (induction al) auto

lemma confined_bracket:
  assumes inv: "confined past s"
    and h: "children_only (past @ [SubmitAtomicOrder entry sl tp])"
    and b: "atomic_child_orders s2
              = AList.update (o_id entry) (atomic_orders sl tp) (atomic_child_orders s)"
    and w: "working_orders s2 = working_orders s" and e: "events s2 = events s"
  shows "confined (past @ [SubmitAtomicOrder entry sl tp]) s2"
proof -
  let ?op = "SubmitAtomicOrder entry sl tp"
  from inv have
    j1: "\<And>p cs c. (p, cs) \<in> set (atomic_child_orders s) \<Longrightarrow> c \<in> set cs
           \<Longrightarrow> (o_id c, p) \<in> set (family past)"
    and j2: "\<And>k p. (k, p) \<in> set (family past) \<Longrightarrow> k \<in> working_ids s
           \<Longrightarrow> p \<in> set (filled_ids s)"
    and j3: "working_ids s \<subseteq> fst ` set (family past) \<union> set (submitted past)"
    unfolding confined_def by blast+
  have fam: "family (past @ [?op])
      = family past @ map (\<lambda>c. (o_id c, o_id entry)) (atomic_orders sl tp)"
    by (simp add: family_def)
  have sub: "submitted (past @ [?op]) = submitted past @ [o_id entry]"
    by (simp add: submitted_def)
  from h have d: "distinct (map fst (family past) @ map o_id (atomic_orders sl tp))"
    and x: "\<And>k. k \<in> o_id ` set (atomic_orders sl tp) \<Longrightarrow> k \<notin> set (submitted past)"
    unfolding children_only_def fam sub by (auto simp: list_all_iff comp_def)
  have wk: "working_ids s2 = working_ids s" by (simp add: working_ids_def w)
  have fl: "filled_ids s2 = filled_ids s" by (simp add: filled_ids_def e)
  have "(o_id c, p) \<in> set (family (past @ [?op]))"
    if pc: "(p, cs) \<in> set (atomic_child_orders s2)" and c: "c \<in> set cs" for p cs c
  proof -
    from pc set_update_subset[of "o_id entry" "atomic_orders sl tp" "atomic_child_orders s"]
    consider "(p, cs) = (o_id entry, atomic_orders sl tp)"
      | "(p, cs) \<in> set (atomic_child_orders s)"
      unfolding b by blast
    then show ?thesis
    proof cases
      case 1
      with c show ?thesis unfolding fam by auto
    next
      case 2
      from j1[OF 2 c] show ?thesis unfolding fam by simp
    qed
  qed
  moreover have "p \<in> set (filled_ids s2)"
    if kp: "(k, p) \<in> set (family (past @ [?op]))" and k: "k \<in> working_ids s2" for k p
  proof -
    from kp consider (old) "(k, p) \<in> set (family past)"
      | (new) "k \<in> o_id ` set (atomic_orders sl tp)"
      unfolding fam by auto
    then show ?thesis
    proof cases
      case old
      from j2[OF old] k show ?thesis by (simp add: wk fl)
    next
      case new
      from k j3 have "k \<in> fst ` set (family past) \<or> k \<in> set (submitted past)"
        by (auto simp: wk)
      then show ?thesis
      proof
        assume "k \<in> fst ` set (family past)"
        with new d show ?thesis by auto
      next
        assume "k \<in> set (submitted past)"
        with x[OF new] show ?thesis by simp
      qed
    qed
  qed
  moreover from j3 have
    "working_ids s2 \<subseteq> fst ` set (family (past @ [?op])) \<union> set (submitted (past @ [?op]))"
    unfolding fam sub wk by auto
  ultimately show ?thesis unfolding confined_def by blast
qed

lemma step_confined:
  assumes inv: "confined past s" and h: "children_only (past @ [op])"
    and st: "step C n op s = Inr s'"
  shows "confined (past @ [op]) s'"
proof (cases "op = Reset")
  case True
  with st have "s' = reset s" by simp
  then show ?thesis
    by (simp add: confined_def reset_def working_ids_def)
next
  case nr: False
  show ?thesis
  proof (cases "\<exists>entry sl tp. op = SubmitAtomicOrder entry sl tp")
    case False
    then have "child_parents op = []" by (cases op) auto
    with inv have c: "confined (past @ [op]) s" by (rule confined_extend)
    from st nr False have g: "grew (set (plain_ids op)) s s'"
      by (intro step_grew) auto
    have sub: "set (plain_ids op) \<subseteq> set (submitted (past @ [op]))"
      by (simp add: submitted_def)
    from c g sub h show ?thesis by (rule confined_grew)
  next
    case True
    then obtain entry sl tp where op: "op = SubmitAtomicOrder entry sl tp" by blast
    let ?s2 = "s\<lparr>oco_orders :=
           (case tp of
              None \<Rightarrow> oco_orders s
            | Some tp \<Rightarrow> (oco_orders s)(o_id tp \<mapsto> o_id sl, o_id sl \<mapsto> o_id tp)),
         atomic_child_orders :=
           AList.update (o_id entry)
             (case tp of None \<Rightarrow> [sl] | Some tp \<Rightarrow> [sl, tp])
             (atomic_child_orders s)\<rparr>"
    from st op have "submit_order C n entry ?s2 = Inr s'"
      by (simp add: submit_atomic_order_eq)
    then have g: "grew {o_id entry} ?s2 s'" by (rule submit_order_grew)
    from inv h have c: "confined (past @ [op]) ?s2"
      unfolding op by (rule confined_bracket) (simp_all add: atomic_orders_def)
    have sub: "{o_id entry} \<subseteq> set (submitted (past @ [op]))"
      by (simp add: submitted_def op)
    from c g sub h show ?thesis by (rule confined_grew)
  qed
qed

lemma run_confined:
  "confined past s \<Longrightarrow> children_only (past @ ops) \<Longrightarrow> run C n ops s = Inr s'
     \<Longrightarrow> confined (past @ ops) s'"
proof (induction ops arbitrary: past s)
  case Nil
  then show ?case by simp
next
  case (Cons op ops)
  from Cons.prems(3) obtain s1 where 1: "step C n op s = Inr s1"
    and 2: "run C n ops s1 = Inr s'"
    by (cases "step C n op s") auto
  from Cons.prems(2) have h: "children_only ((past @ [op]) @ ops)" by simp
  then have "children_only (past @ [op])" by (rule children_only_prefix)
  with Cons.prems(1) have "confined (past @ [op]) s1" using 1 by (rule step_confined)
  from Cons.IH[OF this h 2] show ?case by simp
qed

lemma confined_init: "confined [] (init C config engine db fm instrs)"
  by (simp add: confined_def init_def family_def submitted_def working_ids_def)

section \<open>The claims\<close>

text \<open>
  C3.  The spec says that a marginal fill, with the touch price exactly at the order price,
  only fires when the fill model says so.  In the matching loop a BUY STOP order is tested
  with \<^verbatim>\<open>tick.ask.ge(order.price)\<close> before the marginal predicate, so at
  \<open>ask = price\<close> the order fills whatever the fill model answers.  Here a working BUY STOP
  at 11020 meets a tick with ask 11020, the fill model refuses every marginal fill, and the
  order is filled at 11020.
\<close>

theorem buy_stop_fills_at_touch_against_fill_model:
  "map_of (working_orders demo_stop_working) ''O-1'' = Some (demo_order ''O-1'' BUY STOP 11020)
   \<and> order_state_of demo (exec_engine demo_stop_working) (demo_order ''O-1'' BUY STOP 11020)
       = WORKING
   \<and> tick_ask (demo_tick 11018 11020 200) = o_price (demo_order ''O-1'' BUY STOP 11020)
   \<and> fst (is_stop_filled demo (fill_model demo_stop_working)) = False
   \<and> emitted_by demo_stop_working
        (match_order demo 5 (demo_tick 11018 11020 200) 200
           (demo_order ''O-1'' BUY STOP 11020) demo_stop_working)
      = Inr [OrderFilled \<lparr>ev_order_id = ''O-1'', ev_symbol = ''EURUSD'', ev_order_side = BUY,
               ev_filled_quantity = 100, ev_average_price = 11020\<rparr>]"
  by code_simp



text \<open>
  C9.  A \<^verbatim>\<open>ModifyOrder\<close> command for a working order with modified quantity zero calls
  \<^verbatim>\<open>_cancel_reject_order\<close> with the \<^verbatim>\<open>Order\<close> object instead of its identifier.  The
  parameter is declared \<^verbatim>\<open>OrderId\<close>, so the call fails with a type error: no
  \<^verbatim>\<open>OrderCancelReject\<close> event is emitted and the command aborts.  Here the working order
  O-1 is modified with quantity 0.
\<close>

theorem modify_order_zero_quantity_type_error:
  "map_of (working_orders demo_stop_working) ''O-1'' = Some (demo_order ''O-1'' BUY STOP 11020)
   \<and> feq demo (quantity_as_double demo 0) (f_zero demo)
   \<and> modify_order demo ''O-1'' 0 11025 demo_stop_working = Inl TypeError"
proof -
  have "map_sum id events (modify_order demo ''O-1'' 0 11025 demo_stop_working) = Inl TypeError"
    by code_simp
  then have "modify_order demo ''O-1'' 0 11025 demo_stop_working = Inl TypeError"
    by (cases "modify_order demo ''O-1'' 0 11025 demo_stop_working") simp_all
  moreover have "map_of (working_orders demo_stop_working) ''O-1''
      = Some (demo_order ''O-1'' BUY STOP 11020)"
    by code_simp
  moreover have "feq demo (quantity_as_double demo 0) (f_zero demo)"
    by code_simp
  ultimately show ?thesis by simp
qed




text \<open>
  C2.  One pass of the matching loop over a working BUY order of a STOP type whose symbol is
  that of the tick: the order is filled exactly when \<open>ask \<ge> price\<close> or the fill is
  marginal (\<open>ask = price\<close> and the fill model grants a stop fill).  On a fill the order
  leaves the working orders and \<^verbatim>\<open>_fill_order\<close> runs at the order price plus the slippage
  of the symbol if the fill model slips, at the order price otherwise; the first fill event
  emitted is that of the order at this price.  Without a fill only the expiry check runs,
  and no fill event is emitted.
\<close>

theorem buy_stop_matching:
  assumes "o_side order = BUY" and "o_type order \<in> STOP_ORDER_TYPES"
    and "o_symbol order = tick_symbol tick"
    and "order_state_of C (exec_engine s) order = WORKING"
    and "map_of (working_orders s) (o_id order) = Some order"
    and "instruments s (o_symbol order) = Some i"
    and "slippages s (o_symbol order) = Some sl"
  shows
    "let hit = (tick_ask tick \<ge> o_price order
                \<or> (tick_ask tick = o_price order \<and> fst (is_stop_filled C (fill_model s))));
         price = (if fst (is_slipped C (fill_model s)) then o_price order + sl
                  else o_price order)
     in match_order C n tick t order s =
          (if hit then
             fill_order C n order price
               (s\<lparr>working_orders := AList.delete (o_id order) (working_orders s),
                  fill_model := snd (is_slipped C (fill_model s))\<rparr>)
           else check_order_expiry C t order s)
        \<and> (\<forall>s'. match_order C n tick t order s = Inr s' \<longrightarrow>
              (if hit then
                 \<exists>pre rest. events s' = events s @ pre @
                    OrderFilled \<lparr>ev_order_id = o_id order, ev_symbol = o_symbol order,
                      ev_order_side = o_side order, ev_filled_quantity = o_quantity order,
                      ev_average_price = price\<rparr> # rest
                    \<and> (\<forall>ev\<in>set pre. \<not> is_fill ev)
               else \<exists>evs. events s' = events s @ evs \<and> (\<forall>ev\<in>set evs. \<not> is_fill ev)))"
proof -
  let ?hit = "tick_ask tick \<ge> o_price order
                \<or> (tick_ask tick = o_price order \<and> fst (is_stop_filled C (fill_model s)))"
  let ?price = "if fst (is_slipped C (fill_model s)) then o_price order + sl else o_price order"
  let ?s2 = "s\<lparr>working_orders := AList.delete (o_id order) (working_orders s),
                  fill_model := snd (is_slipped C (fill_model s))\<rparr>"
  have hit: "?hit \<longleftrightarrow> tick_ask tick \<ge> o_price order" by auto
  have eq: "match_order C n tick t order s =
          (if ?hit then fill_order C n order ?price ?s2 else check_order_expiry C t order s)"
  proof (cases "tick_ask tick \<ge> o_price order")
    case True
    with assms show ?thesis
      by (simp add: match_order_def fill_working_add_def Let_def split: prod.split)
  next
    case False
    then have "tick_ask tick \<noteq> o_price order" by simp
    with False assms show ?thesis
      by (simp add: match_order_def is_marginal_buy_stop_fill_def)
  qed
  have ev: "(if ?hit then
                 \<exists>pre rest. events s' = events s @ pre @
                    OrderFilled \<lparr>ev_order_id = o_id order, ev_symbol = o_symbol order,
                      ev_order_side = o_side order, ev_filled_quantity = o_quantity order,
                      ev_average_price = ?price\<rparr> # rest
                    \<and> (\<forall>ev\<in>set pre. \<not> is_fill ev)
               else \<exists>evs. events s' = events s @ evs \<and> (\<forall>ev\<in>set evs. \<not> is_fill ev))"
    if m: "match_order C n tick t order s = Inr s'" for s'
  proof (cases ?hit)
    case True
    with m eq have "fill_order C n order ?price ?s2 = Inr s'" by simp
    from fill_order_first_fill[OF this] True show ?thesis by simp
  next
    case False
    with m eq have "check_order_expiry C t order s = Inr s'" by simp
    from check_order_expiry_effect[OF this] False show ?thesis by simp
  qed
  from eq ev show ?thesis unfolding Let_def by blast
qed

theorem buy_stop_matching_witness:
  "emitted_by demo_stop_working
     (match_order demo 5 (demo_tick 11018 11020 200) 200 (demo_order ''O-1'' BUY STOP 11020)
        demo_stop_working)
    = emitted_by demo_stop_working
        (fill_order demo 5 (demo_order ''O-1'' BUY STOP 11020) 11020
           (demo_stop_working\<lparr>working_orders :=
               AList.delete ''O-1'' (working_orders demo_stop_working),
             fill_model := False\<rparr>))
   \<and> emitted_by demo_stop_working
     (match_order demo 5 (demo_tick 11018 11020 200) 200 (demo_order ''O-1'' BUY STOP 11020)
        demo_stop_working)
    = Inr [OrderFilled \<lparr>ev_order_id = ''O-1'', ev_symbol = ''EURUSD'', ev_order_side = BUY,
               ev_filled_quantity = 100, ev_average_price = 11020\<rparr>]"
proof -
  let ?o = "demo_order ''O-1'' BUY STOP 11020"
  let ?t = "demo_tick 11018 11020 200"
  have h: "o_side ?o = BUY" "o_type ?o \<in> STOP_ORDER_TYPES" "o_symbol ?o = tick_symbol ?t"
    "order_state_of demo (exec_engine demo_stop_working) ?o = WORKING"
    "map_of (working_orders demo_stop_working) (o_id ?o) = Some ?o"
    "instruments demo_stop_working (o_symbol ?o)
       = Some \<lparr>i_symbol = ''EURUSD'', i_quote_currency = ''USD'', i_security_type = FOREX,
               i_tick_size = 1, i_min_trade_size = 1, i_max_trade_size = 1000,
               i_min_stop_distance = 5, i_min_limit_distance = 5\<rparr>"
    "slippages demo_stop_working (o_symbol ?o) = Some 1"
    by code_simp+
  have v: "tick_ask ?t \<ge> o_price ?o" "fst (is_slipped demo (fill_model demo_stop_working)) = False"
    "snd (is_slipped demo (fill_model demo_stop_working)) = False" "o_id ?o = ''O-1''"
    by code_simp+
  from buy_stop_matching[OF h, where n = 5 and t = 200] v
  have "match_order demo 5 ?t 200 ?o demo_stop_working
      = fill_order demo 5 ?o 11020
           (demo_stop_working\<lparr>working_orders :=
               AList.delete ''O-1'' (working_orders demo_stop_working),
             fill_model := False\<rparr>)"
    by (simp add: Let_def demo_order_def)
  moreover have "emitted_by demo_stop_working (match_order demo 5 ?t 200 ?o demo_stop_working)
    = Inr [OrderFilled \<lparr>ev_order_id = ''O-1'', ev_symbol = ''EURUSD'', ev_order_side = BUY,
               ev_filled_quantity = 100, ev_average_price = 11020\<rparr>]"
    by code_simp
  ultimately show ?thesis by simp
qed



text \<open>
  C7.  \<^verbatim>\<open>apply_rollover_interest\<close>, with an execution database registered, accumulates over
  the open positions whose instrument is FX the rollover of the spec (mid price times
  quantity times overnight rate times exchange rate, less the spread markup) and triples
  the total when the ISO weekday given is 3 or 5.  The amount is added to
  \<^verbatim>\<open>total_rollover\<close> in every case.  With a frozen account the capital, the cash activity
  of the day and the events stay as they are; otherwise the amount is added to both and
  one account state event is emitted.  The arithmetic of doubles is a parameter, of which
  only \<open>0.0 == 0.0\<close> is assumed.
\<close>

theorem rollover_interest:
  assumes "exec_db_registered s" and "feq C (f_zero C) (f_zero C)"
    and "rollover_sum C timestamp s (get_positions_open C (exec_engine s)) (f_zero C)
           = Some cumulative"
  shows
    "let rollover_final = Money C (if iso_week_day = 3 \<or> iso_week_day = 5
                                   then fmul C cumulative (f_three C) else cumulative)
     in \<exists>s'. apply_rollover_interest C timestamp iso_week_day s = Inr s'
          \<and> total_rollover s' = total_rollover s + rollover_final
          \<and> (if frozen_account s then
                account_capital s' = account_capital s
                \<and> account_cash_activity_day s' = account_cash_activity_day s
                \<and> events s' = events s
              else
                account_capital s' = account_capital s + rollover_final
                \<and> account_cash_activity_day s' = account_cash_activity_day s + rollover_final
                \<and> events s' = events s @
                     [AccountStateEvent (account_capital s + rollover_final)
                        (account_cash_start_day s)
                        (account_cash_activity_day s + rollover_final)])"
proof -
  have "\<forall>sym m. (Map.empty :: symbol \<rightharpoonup> 'c) sym = Some m \<longrightarrow>
          (\<exists>mkt. map_of (market s) sym = Some mkt \<and> m = mid_of C mkt)"
    by simp
  from rollover_positions_sum[OF assms(2) this assms(3)] obtain mids' where
    "rollover_positions C timestamp s (get_positions_open C (exec_engine s))
       (Map.empty, f_zero C) = Inr (mids', cumulative)"
    by blast
  with assms(1) have
    "apply_rollover_interest C timestamp iso_week_day s
      = Inr (book_rollover C (Money C (weekday_total C iso_week_day cumulative)) s)"
    by (simp add: apply_rollover_interest_eq)
  moreover have "weekday_total C iso_week_day cumulative
      = (if iso_week_day = 3 \<or> iso_week_day = 5
         then fmul C cumulative (f_three C) else cumulative)"
    by (simp add: weekday_total_def)
  ultimately show ?thesis
    by (simp add: Let_def book_rollover_def exec_engine_handle_event_def)
qed

theorem rollover_interest_witness:
  "(let s = demo_after False [ProcessTick (demo_tick 10998 11002 100)]
    in exec_db_registered s \<and> feq demo (f_zero demo) (f_zero demo)
       \<and> rollover_sum demo 500 s (get_positions_open demo (exec_engine s)) (f_zero demo)
           = Some 1100000
       \<and> (\<exists>s'. apply_rollover_interest demo 500 3 s = Inr s'
             \<and> total_rollover s' = total_rollover s + 3300000
             \<and> account_capital s' = account_capital s + 3300000
             \<and> events s' = events s @
                  [AccountStateEvent (account_capital s + 3300000) (account_cash_start_day s)
                     (account_cash_activity_day s + 3300000)]))"
proof -
  let ?s = "demo_after False [ProcessTick (demo_tick 10998 11002 100)]"
  have h: "exec_db_registered ?s" "feq demo (f_zero demo) (f_zero demo)"
    "rollover_sum demo 500 ?s (get_positions_open demo (exec_engine ?s)) (f_zero demo)
       = Some 1100000"
    by code_simp+
  have v: "Money demo (fmul demo 1100000 (f_three demo)) = 3300000" "\<not> frozen_account ?s"
    by code_simp+
  from rollover_interest[OF h, of 3] v h show ?thesis
    by (simp add: Let_def) blast
qed



text \<open>
  C5.  The claim: in every state reachable by the public commands, with distinct stop-loss
  and take-profit identifiers in atomic submissions, the OCO map is symmetric and has no
  self-pairs, and \<^verbatim>\<open>submit_atomic_order\<close>, \<^verbatim>\<open>_check_oco_order\<close> and \<^verbatim>\<open>_expire_order\<close> preserve
  this.  \<^verbatim>\<open>submit_atomic_order\<close> writes both entries of the pair without looking at the map,
  so an identifier that is already paired is paired anew and its old partner keeps pointing
  at it.  In the run below every atomic order has a stop-loss and a take-profit with
  different identifiers, the second atomic order has the stop-loss identifier of the first,
  and afterwards \<open>TP-1\<close> is paired with \<open>SL-1\<close> while \<open>SL-1\<close> is paired with \<open>TP-2\<close>.
\<close>

theorem oco_symmetry_counterexample:
  "list_all distinct_children demo_reuse_ops
   \<and> run demo 5 demo_reuse_ops (demo_init False) = Inr (demo_after False demo_reuse_ops)
   \<and> oco_orders (demo_after False demo_reuse_ops) ''TP-1'' = Some ''SL-1''
   \<and> oco_orders (demo_after False demo_reuse_ops) ''SL-1'' = Some ''TP-2''
   \<and> \<not> oco_symmetric (oco_orders (demo_after False demo_reuse_ops))"
proof -
  have d: "list_all distinct_children demo_reuse_ops" by code_simp
  have "\<not> isl (run demo 5 demo_reuse_ops (demo_init False))" by code_simp
  then have r: "run demo 5 demo_reuse_ops (demo_init False)
      = Inr (demo_after False demo_reuse_ops)"
    by (cases "run demo 5 demo_reuse_ops (demo_init False)") (simp_all add: demo_after_def)
  have v: "oco_orders (demo_after False demo_reuse_ops) ''TP-1'' = Some ''SL-1''"
    "oco_orders (demo_after False demo_reuse_ops) ''SL-1'' = Some ''TP-2''"
    by code_simp+
  have "\<not> oco_symmetric (oco_orders (demo_after False demo_reuse_ops))"
  proof
    assume "oco_symmetric (oco_orders (demo_after False demo_reuse_ops))"
    with v(1) have "oco_orders (demo_after False demo_reuse_ops) ''SL-1'' = Some ''TP-1''"
      unfolding oco_symmetric_def by blast
    with v(2) show False by simp
  qed
  with d r v show ?thesis by simp
qed

text \<open>
  C5, with the condition that makes it hold: the stop-loss and take-profit identifiers of an
  atomic submission are different and neither is a key of the OCO map when the order is
  submitted.  Then the OCO map is symmetric without self-pairs in every state that a run of
  public operations reaches from the initial state; and \<^verbatim>\<open>submit_atomic_order\<close> under that
  condition, \<^verbatim>\<open>_check_oco_order\<close> and \<^verbatim>\<open>_expire_order\<close> each preserve it.
\<close>

theorem oco_symmetry_fresh_ids:
  "(along oco_fresh C n ops (init C config engine db fm instrs)
      \<and> run C n ops (init C config engine db fm instrs) = Inr s
      \<longrightarrow> oco_symmetric (oco_orders s))
   \<and> (oco_symmetric (oco_orders s) \<and> oco_fresh (SubmitAtomicOrder entry sl tp) s
        \<and> submit_atomic_order C n entry sl tp s = Inr s'
      \<longrightarrow> oco_symmetric (oco_orders s'))
   \<and> (oco_symmetric (oco_orders s) \<and> check_oco_order C k s = Inr s'
      \<longrightarrow> oco_symmetric (oco_orders s'))
   \<and> (oco_symmetric (oco_orders s) \<and> expire_order C order s = Inr s'
      \<longrightarrow> oco_symmetric (oco_orders s'))"
proof (intro conjI impI)
  assume "along oco_fresh C n ops (init C config engine db fm instrs)
      \<and> run C n ops (init C config engine db fm instrs) = Inr s"
  moreover have "oco_symmetric (oco_orders (init C config engine db fm instrs))"
    by (simp add: init_def)
  ultimately show "oco_symmetric (oco_orders s)" using run_oco by blast
next
  assume "oco_symmetric (oco_orders s) \<and> oco_fresh (SubmitAtomicOrder entry sl tp) s
        \<and> submit_atomic_order C n entry sl tp s = Inr s'"
  then show "oco_symmetric (oco_orders s')" using submit_atomic_order_oco by blast
next
  assume "oco_symmetric (oco_orders s) \<and> check_oco_order C k s = Inr s'"
  with check_oco_order_effect[of C k s s'] show "oco_symmetric (oco_orders s')"
    by (simp add: steady_def)
next
  assume "oco_symmetric (oco_orders s) \<and> expire_order C order s = Inr s'"
  with expire_order_effect[of C order s s'] show "oco_symmetric (oco_orders s')"
    by (simp add: steady_def)
qed

theorem oco_symmetry_fresh_ids_witness:
  "along oco_fresh demo 5 demo_bracket_ops (demo_init False)
   \<and> run demo 5 demo_bracket_ops (demo_init False) = Inr (demo_after False demo_bracket_ops)
   \<and> oco_orders (demo_after False demo_bracket_ops) ''SL-1'' = Some ''TP-1''
   \<and> oco_orders (demo_after False demo_bracket_ops) ''TP-2'' = Some ''SL-2''
   \<and> oco_symmetric (oco_orders (demo_after False demo_bracket_ops))
   \<and> \<not> isl (submit_atomic_order demo 5 (demo_entry ''E-3'')
              (demo_order ''SL-3'' SELL STOP 10800) (Some (demo_order ''TP-3'' SELL LIMIT 11100))
              (demo_after False demo_bracket_ops))
   \<and> oco_symmetric (oco_orders (projr (submit_atomic_order demo 5 (demo_entry ''E-3'')
              (demo_order ''SL-3'' SELL STOP 10800) (Some (demo_order ''TP-3'' SELL LIMIT 11100))
              (demo_after False demo_bracket_ops))))
   \<and> \<not> isl (check_oco_order demo ''SL-1'' (demo_after False demo_bracket_ops))
   \<and> oco_orders (projr (check_oco_order demo ''SL-1'' (demo_after False demo_bracket_ops)))
        ''TP-1'' = None
   \<and> oco_symmetric
        (oco_orders (projr (check_oco_order demo ''SL-1'' (demo_after False demo_bracket_ops))))
   \<and> \<not> isl (expire_order demo (demo_entry ''E-2'') (demo_after False demo_bracket_ops))
   \<and> oco_orders (projr (expire_order demo (demo_entry ''E-2'')
                           (demo_after False demo_bracket_ops))) ''SL-2'' = None
   \<and> oco_symmetric
        (oco_orders (projr (expire_order demo (demo_entry ''E-2'')
                              (demo_after False demo_bracket_ops))))"
proof -
  let ?S = "demo_after False demo_bracket_ops"
  let ?sub = "submit_atomic_order demo 5 (demo_entry ''E-3'')
      (demo_order ''SL-3'' SELL STOP 10800) (Some (demo_order ''TP-3'' SELL LIMIT 11100)) ?S"
  let ?chk = "check_oco_order demo ''SL-1'' ?S"
  let ?exp = "expire_order demo (demo_entry ''E-2'') ?S"
  have a: "along oco_fresh demo 5 demo_bracket_ops (demo_init False)" by code_simp
  have "\<not> isl (run demo 5 demo_bracket_ops (demo_init False))" by code_simp
  then have r: "run demo 5 demo_bracket_ops (demo_init False) = Inr ?S"
    by (cases "run demo 5 demo_bracket_ops (demo_init False)") (simp_all add: demo_after_def)
  have v: "oco_orders ?S ''SL-1'' = Some ''TP-1''" "oco_orders ?S ''TP-2'' = Some ''SL-2''"
    by code_simp+
  from oco_symmetry_fresh_ids[of demo 5 demo_bracket_ops "demo_config False" "[]" True False
      demo_instruments ?S] a r
  have sym: "oco_symmetric (oco_orders ?S)"
    by (simp add: demo_init_def)
  have f: "oco_fresh (SubmitAtomicOrder (demo_entry ''E-3'')
      (demo_order ''SL-3'' SELL STOP 10800) (Some (demo_order ''TP-3'' SELL LIMIT 11100))) ?S"
    by code_simp
  have i1: "\<not> isl ?sub" by code_simp
  then have e1: "?sub = Inr (projr ?sub)" by simp
  have i2: "\<not> isl ?chk" by code_simp
  then have e2: "?chk = Inr (projr ?chk)" by simp
  have i3: "\<not> isl ?exp" by code_simp
  then have e3: "?exp = Inr (projr ?exp)" by simp
  have n: "oco_orders (projr ?chk) ''TP-1'' = None" "oco_orders (projr ?exp) ''SL-2'' = None"
    by code_simp+
  from oco_symmetry_fresh_ids[where s = ?S and s' = "projr ?sub" and C = demo and n = 5
      and entry = "demo_entry ''E-3''" and sl = "demo_order ''SL-3'' SELL STOP 10800"
      and tp = "Some (demo_order ''TP-3'' SELL LIMIT 11100)"] sym f e1
  have s1: "oco_symmetric (oco_orders (projr ?sub))" by blast
  from oco_symmetry_fresh_ids[where s = ?S and s' = "projr ?chk" and C = demo
      and k = "''SL-1''"] sym e2
  have s2: "oco_symmetric (oco_orders (projr ?chk))" by blast
  from oco_symmetry_fresh_ids[where s = ?S and s' = "projr ?exp" and C = demo
      and order = "demo_entry ''E-2''"] sym e3
  have s3: "oco_symmetric (oco_orders (projr ?exp))" by blast
  from a r v sym i1 s1 i2 n(1) s2 i3 n(2) s3 show ?thesis by blast
qed

text \<open>
  C6.  Atomic child confinement.  Take a run of public operations from the initial state in
  which child orders are introduced only by \<^verbatim>\<open>submit_atomic_order\<close>: every child identifier
  is the child of one atomic order of the run and is not the identifier of an order given
  to \<^verbatim>\<open>submit_order\<close> or of an entry order.  In the state the run reaches, a child order of
  an atomic order of the run is among the working orders only if \<^verbatim>\<open>OrderFilled\<close> has been
  generated for its entry order.  When \<^verbatim>\<open>_fill_order\<close> fills an order that has child
  orders, it generates the fill event first, then runs the loop over the children, and the
  state it returns is the state after the loop with the bracket of the order deleted; the
  loop skips a child that is completed and gives every other child to \<^verbatim>\<open>_process_order\<close>.
\<close>

theorem atomic_child_confinement:
  "(children_only ops \<and> run C n ops (init C config engine db fm instrs) = Inr s
      \<and> SubmitAtomicOrder entry stop_loss take_profit \<in> set ops
      \<and> child \<in> set (atomic_orders stop_loss take_profit)
      \<and> o_id child \<in> working_ids s
    \<longrightarrow> o_id entry \<in> set (filled_ids s))
   \<and> (fill_order C (Suc n) order price s0 = Inr s1
      \<and> map_of (atomic_child_orders s0) (o_id order) = Some children
    \<longrightarrow> (\<exists>s2 s3. o_id order \<in> set (filled_ids s2)
            \<and> work_child_orders C n children s2 = Inr s3
            \<and> s1 = s3\<lparr>atomic_child_orders :=
                        AList.delete (o_id order) (atomic_child_orders s3)\<rparr>)
        \<and> o_id order \<notin> bracket_ids s1)
   \<and> work_child_orders C n (c # cs) s0 =
       (if order_is_completed C (exec_engine s0) c then work_child_orders C n cs s0
        else bindE (process_order C n c s0) (work_child_orders C n cs))"
proof (intro conjI impI)
  assume a: "children_only ops \<and> run C n ops (init C config engine db fm instrs) = Inr s
      \<and> SubmitAtomicOrder entry stop_loss take_profit \<in> set ops
      \<and> child \<in> set (atomic_orders stop_loss take_profit)
      \<and> o_id child \<in> working_ids s"
  from a have h: "children_only ([] @ ops)"
    and r: "run C n ops (init C config engine db fm instrs) = Inr s" by simp_all
  from confined_init h r have "confined ([] @ ops) s" by (rule run_confined)
  then have j2: "\<And>k p. (k, p) \<in> set (family ops) \<Longrightarrow> k \<in> working_ids s
           \<Longrightarrow> p \<in> set (filled_ids s)"
    unfolding confined_def by auto
  from a have "(o_id child, o_id entry)
      \<in> set (child_parents (SubmitAtomicOrder entry stop_loss take_profit))" by auto
  with a have "(o_id child, o_id entry) \<in> set (family ops)"
    unfolding family_def by (auto simp del: child_parents.simps)
  with j2 a show "o_id entry \<in> set (filled_ids s)" by blast
next
  assume a: "fill_order C (Suc n) order price s0 = Inr s1
      \<and> map_of (atomic_child_orders s0) (o_id order) = Some children"
  then obtain s2 where an: "announce_fill C order price s0 = Inr s2"
    by (cases "announce_fill C order price s0") (simp_all add: fill_order_unfold)
  from announce_fill_effect[OF an] obtain pre post where
    *: "atomic_child_orders s2 = atomic_child_orders s0"
       "events s2 = events s0 @ pre @
            OrderFilled \<lparr>ev_order_id = o_id order, ev_symbol = o_symbol order,
                         ev_order_side = o_side order, ev_filled_quantity = o_quantity order,
                         ev_average_price = price\<rparr> # post"
    by blast
  from filled_ids_fill[OF *(2)] have f2: "o_id order \<in> set (filled_ids s2)" by simp
  from a *(1) have "map_of (atomic_child_orders s2) (o_id order) = Some children" by simp
  with a an obtain s3 where w: "work_child_orders C n children s2 = Inr s3"
    and s1: "s1 = s3\<lparr>atomic_child_orders := AList.delete (o_id order) (atomic_child_orders s3)\<rparr>"
    by (auto simp: fill_order_unfold split: sum.splits option.splits)
  with f2 show "\<exists>s2 s3. o_id order \<in> set (filled_ids s2)
            \<and> work_child_orders C n children s2 = Inr s3
            \<and> s1 = s3\<lparr>atomic_child_orders :=
                        AList.delete (o_id order) (atomic_child_orders s3)\<rparr>"
    by blast
  from a fill_order_grew[of C "Suc n" order price s0 s1]
  show "o_id order \<notin> bracket_ids s1" by blast
next
  show "work_child_orders C n (c # cs) s0 =
       (if order_is_completed C (exec_engine s0) c then work_child_orders C n cs s0
        else bindE (process_order C n c s0) (work_child_orders C n cs))"
    by (simp add: bindE_def split: sum.split)
qed

theorem atomic_child_confinement_witness:
  "children_only demo_market_bracket
   \<and> run demo 5 demo_market_bracket (demo_init False)
       = Inr (demo_after False demo_market_bracket)
   \<and> working_ids (demo_after False demo_market_bracket) = {''SL-1'', ''TP-1''}
   \<and> ''E-1'' \<in> set (filled_ids (demo_after False demo_market_bracket))
   \<and> bracket_ids (demo_after False demo_market_bracket) = {}
   \<and> working_ids demo_resting_bracket = {''E-1''}
   \<and> map_of (atomic_child_orders demo_resting_bracket) ''E-1''
       = Some [demo_order ''SL-1'' SELL STOP 10800, demo_order ''TP-1'' SELL LIMIT 11100]
   \<and> \<not> isl (fill_order demo 5 (demo_order ''E-1'' BUY LIMIT 10900) 10900 demo_resting_bracket)
   \<and> ''E-1'' \<notin> bracket_ids
        (projr (fill_order demo 5 (demo_order ''E-1'' BUY LIMIT 10900) 10900
                  demo_resting_bracket))
   \<and> {''SL-1'', ''TP-1''} \<subseteq> working_ids
        (projr (fill_order demo 5 (demo_order ''E-1'' BUY LIMIT 10900) 10900
                  demo_resting_bracket))"
proof -
  let ?S = "demo_after False demo_market_bracket"
  let ?entry = "demo_order ''E-1'' BUY LIMIT 10900"
  let ?sl = "demo_order ''SL-1'' SELL STOP 10800"
  let ?tp = "demo_order ''TP-1'' SELL LIMIT 11100"
  let ?fill = "fill_order demo 5 ?entry 10900 demo_resting_bracket"
  have h: "children_only demo_market_bracket" by code_simp
  have "\<not> isl (run demo 5 demo_market_bracket (demo_init False))" by code_simp
  then have r: "run demo 5 demo_market_bracket (demo_init False) = Inr ?S"
    by (cases "run demo 5 demo_market_bracket (demo_init False)") (simp_all add: demo_after_def)
  have w: "working_ids ?S = {''SL-1'', ''TP-1''}" by code_simp
  have b: "bracket_ids ?S = {}" by code_simp
  have m: "SubmitAtomicOrder (demo_order ''E-1'' BUY MARKET 0) ?sl (Some ?tp)
      \<in> set demo_market_bracket"
    by (simp add: demo_market_bracket_def)
  have c: "?sl \<in> set (atomic_orders ?sl (Some ?tp))" by (simp add: atomic_orders_def)
  have i: "o_id ?sl = ''SL-1''" "o_id (demo_order ''E-1'' BUY MARKET 0) = ''E-1''"
    by (simp_all add: demo_order_def)
  from atomic_child_confinement[where C = demo and n = 5 and ops = demo_market_bracket
      and config = "demo_config False" and engine = "[]" and db = True and fm = False
      and instrs = demo_instruments and s = ?S and entry = "demo_order ''E-1'' BUY MARKET 0"
      and stop_loss = ?sl and take_profit = "Some ?tp" and child = ?sl] h r m c w i
  have f: "''E-1'' \<in> set (filled_ids ?S)"
    by (simp add: demo_init_def)
  have w0: "working_ids demo_resting_bracket = {''E-1''}" by code_simp
  have k: "map_of (atomic_child_orders demo_resting_bracket) ''E-1'' = Some [?sl, ?tp]"
    by code_simp
  have nl: "\<not> isl ?fill" by code_simp
  then have e: "fill_order demo (Suc 4) ?entry 10900 demo_resting_bracket = Inr (projr ?fill)"
    by (simp add: eval_nat_numeral)
  have i2: "o_id ?entry = ''E-1''" by (simp add: demo_order_def)
  from atomic_child_confinement[where C = demo and n = 4 and order = ?entry and price = 10900
      and ?s0.0 = demo_resting_bracket and ?s1.0 = "projr ?fill" and children = "[?sl, ?tp]"]
    e k i2
  have nb: "''E-1'' \<notin> bracket_ids (projr ?fill)" by simp
  have w1: "{''SL-1'', ''TP-1''} \<subseteq> working_ids (projr ?fill)" by code_simp
  from h r w f b w0 k nl nb w1 show ?thesis by blast
qed

end
